theory Spec2Isabelle
  imports Main "HOL-Library.Word" "HOL-Library.Sublist"
begin

section \<open>Go library functions used by the storage backend\<close>

text \<open>
  Go strings are byte sequences; they are modelled by \<open>string\<close> (a list of 8-bit
  characters). The backend calls \<open>strings.HasSuffix\<close>, \<open>strings.CutPrefix\<close> and
  \<open>path.Join\<close>; the three are written out here as the Go standard library defines them.
\<close>

definition strings_HasPrefix :: "string \<Rightarrow> string \<Rightarrow> bool" where
  "strings_HasPrefix s pre = (length s \<ge> length pre \<and> take (length pre) s = pre)"

definition strings_HasSuffix :: "string \<Rightarrow> string \<Rightarrow> bool" where
  "strings_HasSuffix s suf =
     (length s \<ge> length suf \<and> drop (length s - length suf) s = suf)"

definition strings_CutPrefix :: "string \<Rightarrow> string \<Rightarrow> string \<times> bool" where
  "strings_CutPrefix s pre =
     (if \<not> strings_HasPrefix s pre then (s, False)
      else (drop (length pre) s, True))"

text \<open>
  \<open>path.Clean\<close> reads the path from left to right and writes into a buffer \<open>out\<close>.
  The model keeps the unread rest of the path (\<open>path[r:]\<close>) and the written part of the
  buffer (\<open>out[:w]\<close>, so that \<open>w = length out\<close>); \<open>dotdot\<close> is the index in the buffer
  below which a \<open>..\<close> element must not remove anything.

  \<open>at_sep s\<close> is the test \<open>r == n || path[r] == '/'\<close> on the rest \<open>s\<close>.
  \<open>backtrack out dotdot w\<close> is the inner loop
  \<open>for out.w > dotdot && out.index(out.w) != '/' { out.w-- }\<close>.
\<close>

definition at_sep :: "string \<Rightarrow> bool" where
  "at_sep s = (case s of [] \<Rightarrow> True | c # _ \<Rightarrow> c = CHR ''/'')"

fun backtrack :: "string \<Rightarrow> nat \<Rightarrow> nat \<Rightarrow> nat" where
  "backtrack out dotdot w =
     (if w > dotdot \<and> out ! w \<noteq> CHR ''/'' then backtrack out dotdot (w - 1) else w)"

declare backtrack.simps [simp del]

function clean_loop :: "bool \<Rightarrow> string \<Rightarrow> string \<Rightarrow> nat \<Rightarrow> string" where
  "clean_loop rooted [] out dotdot = out"
| "clean_loop rooted (c # cs) out dotdot =
     (if c = CHR ''/'' then clean_loop rooted cs out dotdot
      else if c = CHR ''.'' \<and> at_sep cs then clean_loop rooted cs out dotdot
      else if c = CHR ''.'' \<and> (case cs of [] \<Rightarrow> False | d # ds \<Rightarrow> d = CHR ''.'' \<and> at_sep ds) then
        (if length out > dotdot then
           clean_loop rooted (tl cs) (take (backtrack out dotdot (length out - 1)) out) dotdot
         else if \<not> rooted then
           clean_loop rooted (tl cs) ((if length out > 0 then out @ ''/'' else out) @ ''..'')
             (length ((if length out > 0 then out @ ''/'' else out) @ ''..''))
         else clean_loop rooted (tl cs) out dotdot)
      else
        clean_loop rooted (dropWhile (\<lambda>x. x \<noteq> CHR ''/'') (c # cs))
          ((if rooted \<and> length out \<noteq> 1 \<or> \<not> rooted \<and> length out \<noteq> 0 then out @ ''/'' else out)
             @ takeWhile (\<lambda>x. x \<noteq> CHR ''/'') (c # cs))
          dotdot)"
  by pat_completeness auto
termination
proof (relation "measure (\<lambda>(rooted, p, out, dotdot). length p)")
  show "wf (measure (\<lambda>(rooted, p, out, dotdot). length p))" by simp
qed (auto simp: le_imp_less_Suc length_dropWhile_le split: list.splits)

definition path_Clean :: "string \<Rightarrow> string" where
  "path_Clean p =
     (if p = [] then ''.''
      else if hd p = CHR ''/'' then
        (let out = clean_loop True (tl p) ''/'' 1 in if length out = 0 then ''.'' else out)
      else
        (let out = clean_loop False p [] 0 in if length out = 0 then ''.'' else out))"

text \<open>
  \<open>path.Join\<close>: empty elements are skipped, the others are joined by \<open>/\<close> and the
  result is cleaned; when every element is empty the result is the empty string.
\<close>

fun join_buf :: "string \<Rightarrow> string list \<Rightarrow> string" where
  "join_buf buf [] = buf"
| "join_buf buf (e # es) =
     join_buf
       (if length buf > 0 \<or> e \<noteq> [] then (if length buf > 0 then buf @ ''/'' else buf) @ e
        else buf) es"

definition path_Join :: "string list \<Rightarrow> string" where
  "path_Join elem =
     (if sum_list (map length elem) = 0 then []
      else path_Clean (join_buf [] elem))"


section \<open>The Azure SDK as seen by the backend\<close>

text \<open>
  Errors are values. \<open>ErrNotExist\<close> is \<open>fs.ErrNotExist\<close>; every error that comes out of
  the SDK is a \<open>ServiceError\<close> with its message. A nil pointer dereference is the
  outcome \<open>Panic\<close>.
\<close>

datatype error = ErrNotExist | ServiceError string

datatype 'a outcome = Panic | Return 'a

type_synonym bytes = "8 word list"

record Time =
  wall :: "64 word"
  ext :: "64 word"
  loc :: "string option"

definition zero_Time :: Time where
  "zero_Time = \<lparr>wall = 0, ext = 0, loc = None\<rparr>"

record SharedKeyCredential =
  credAccountName :: string
  credAccountKey :: string

record azblob_Client =
  clientURL :: string
  clientCred :: SharedKeyCredential

text \<open>The response of \<open>GetProperties\<close>: both fields are pointers in the SDK.\<close>

record BlobProperties =
  LastModified :: "Time option"
  ContentLength :: "64 word option"

text \<open>
  One page of a flat listing: \<open>Segment\<close> is a pointer, \<open>BlobItems\<close> a slice of pointers
  and \<open>Name\<close> a pointer to a string.
\<close>

record BlobItem =
  Name :: "string option"

record BlobFlatListSegment =
  BlobItems :: "BlobItem option list"

record ListBlobsFlatResponse =
  Segment :: "BlobFlatListSegment option"

text \<open>
  The body of a download: the chunks that can be read and the error, if any, that ends
  the stream. \<open>io.ReadAll\<close> returns what it has read together with that error.
\<close>

record Body =
  chunks :: "bytes list"
  failure :: "error option"

definition io_ReadAll :: "Body \<Rightarrow> bytes \<times> error option" where
  "io_ReadAll body = (concat (chunks body), failure body)"

text \<open>
  The SDK is a parameter of every operation: a record of the calls the backend makes, over
  a state \<open>'s\<close> of the remote service. Every call can fail. A pager is the finite list of
  the results of its successive \<open>NextPage\<close> calls. The arguments of the blob calls are the
  client, the container name and the blob name.
\<close>

record 's azblob =
  NewSharedKeyCredential :: "string \<Rightarrow> string \<Rightarrow> error + SharedKeyCredential"
  NewClientWithSharedKeyCredential :: "string \<Rightarrow> SharedKeyCredential \<Rightarrow> error + azblob_Client"
  UploadBuffer :: "azblob_Client \<Rightarrow> string \<Rightarrow> string \<Rightarrow> bytes \<Rightarrow> 's \<Rightarrow> error option \<times> 's"
  DownloadStream :: "azblob_Client \<Rightarrow> string \<Rightarrow> string \<Rightarrow> 's \<Rightarrow> error + Body"
  DeleteBlob :: "azblob_Client \<Rightarrow> string \<Rightarrow> string \<Rightarrow> 's \<Rightarrow> error option \<times> 's"
  GetProperties :: "azblob_Client \<Rightarrow> string \<Rightarrow> string \<Rightarrow> 's \<Rightarrow> error + BlobProperties"
  NewListBlobsFlatPager :: "azblob_Client \<Rightarrow> string \<Rightarrow> string \<Rightarrow> 's \<Rightarrow> (error + ListBlobsFlatResponse) list"


section \<open>The storage backend\<close>

text \<open>
  The struct \<open>AzureBlob\<close> of a provisioned backend. The logger is left out: the log calls
  do not change what an operation returns. \<open>certmagic.KeyInfo\<close> is the result of \<open>Stat\<close>.
\<close>

record AzureBlob =
  AccountName :: string
  AccountKey :: string
  Container :: string
  Prefix :: string
  Client :: azblob_Client

record KeyInfo =
  Key :: string
  Modified :: Time
  Size :: "64 word"
  IsTerminal :: bool

definition zero_KeyInfo :: KeyInfo where
  "zero_KeyInfo = \<lparr>Key = [], Modified = zero_Time, Size = 0, IsTerminal = False\<rparr>"

definition KeyPrefix :: "AzureBlob \<Rightarrow> string \<Rightarrow> string" where
  "KeyPrefix az key = path_Join [Prefix az, key]"

definition CutKeyPrefix :: "AzureBlob \<Rightarrow> string \<Rightarrow> string" where
  "CutKeyPrefix az key = fst (strings_CutPrefix key (Prefix az))"

definition String :: "AzureBlob \<Rightarrow> string" where
  "String az =
     ''Azure Blob Storage Account: '' @ AccountName az @ '', Container: '' @ Container az
       @ '', Prefix: '' @ Prefix az"

text \<open>\<open>Lock\<close> and \<open>Unlock\<close> return nil and make no call.\<close>

definition Lock :: "AzureBlob \<Rightarrow> string \<Rightarrow> 's \<Rightarrow> error option \<times> 's" where
  "Lock az key s = (None, s)"

definition Unlock :: "AzureBlob \<Rightarrow> string \<Rightarrow> 's \<Rightarrow> error option \<times> 's" where
  "Unlock az key s = (None, s)"

definition Store :: "'s azblob \<Rightarrow> AzureBlob \<Rightarrow> string \<Rightarrow> bytes \<Rightarrow> 's \<Rightarrow> error option \<times> 's" where
  "Store sdk az key val s =
     UploadBuffer sdk (Client az) (Container az) (KeyPrefix az key) val s"

text \<open>
  \<open>Exists\<close> builds a client of its own from the account name and key and asks for the
  properties of the blob named \<open>key\<close>, the key as it was passed in.
\<close>

definition Exists :: "'s azblob \<Rightarrow> AzureBlob \<Rightarrow> string \<Rightarrow> 's \<Rightarrow> bool" where
  "Exists sdk az key s =
     (case NewSharedKeyCredential sdk (AccountName az) (AccountKey az) of
        Inl err \<Rightarrow> False
      | Inr cred \<Rightarrow>
          (case NewClientWithSharedKeyCredential sdk
                  (''https://'' @ AccountName az @ ''.blob.core.windows.net/'') cred of
             Inl err \<Rightarrow> False
           | Inr azBlobClient \<Rightarrow>
               (case GetProperties sdk azBlobClient (Container az) key s of
                  Inl err \<Rightarrow> False
                | Inr props \<Rightarrow> True)))"

definition Load :: "'s azblob \<Rightarrow> AzureBlob \<Rightarrow> string \<Rightarrow> 's \<Rightarrow> bytes \<times> error option" where
  "Load sdk az key s =
     (if \<not> Exists sdk az key s then ([], Some ErrNotExist)
      else
        (case DownloadStream sdk (Client az) (Container az) (KeyPrefix az key) s of
           Inl err \<Rightarrow> ([], Some err)
         | Inr resp \<Rightarrow> io_ReadAll resp))"

definition Delete :: "'s azblob \<Rightarrow> AzureBlob \<Rightarrow> string \<Rightarrow> 's \<Rightarrow> error option \<times> 's" where
  "Delete sdk az key s = DeleteBlob sdk (Client az) (Container az) (KeyPrefix az key) s"

text \<open>
  \<open>List\<close>: the inner loop appends the name of every blob of a page, with the prefix cut
  off; the outer loop runs through the pages and stops at the first error.
\<close>

fun List_items :: "AzureBlob \<Rightarrow> BlobItem option list \<Rightarrow> string list \<Rightarrow> string list outcome" where
  "List_items az [] keys = Return keys"
| "List_items az (None # rest) keys = Panic"
| "List_items az (Some blob # rest) keys =
     (case Name blob of
        None \<Rightarrow> Panic
      | Some n \<Rightarrow> List_items az rest (keys @ [CutKeyPrefix az n]))"

fun List_pages ::
  "AzureBlob \<Rightarrow> (error + ListBlobsFlatResponse) list \<Rightarrow> string list
     \<Rightarrow> (string list \<times> error option) outcome" where
  "List_pages az [] keys = Return (keys, None)"
| "List_pages az (Inl err # rest) keys = Return ([], Some err)"
| "List_pages az (Inr page # rest) keys =
     (case Segment page of
        None \<Rightarrow> Panic
      | Some seg \<Rightarrow>
          (case List_items az (BlobItems seg) keys of
             Panic \<Rightarrow> Panic
           | Return keys' \<Rightarrow> List_pages az rest keys'))"

definition List ::
  "'s azblob \<Rightarrow> AzureBlob \<Rightarrow> string \<Rightarrow> bool \<Rightarrow> 's \<Rightarrow> (string list \<times> error option) outcome" where
  "List sdk az pfx recursive s =
     List_pages az (NewListBlobsFlatPager sdk (Client az) (Container az) (KeyPrefix az pfx) s) []"

definition Stat :: "'s azblob \<Rightarrow> AzureBlob \<Rightarrow> string \<Rightarrow> 's \<Rightarrow> (KeyInfo \<times> error option) outcome" where
  "Stat sdk az key s =
     (case GetProperties sdk (Client az) (Container az) (KeyPrefix az key) s of
        Inl err \<Rightarrow> Return (zero_KeyInfo, None)
      | Inr props \<Rightarrow>
          (case ContentLength props of
             None \<Rightarrow> Panic
           | Some n \<Rightarrow>
               (case LastModified props of
                  None \<Rightarrow> Panic
                | Some t \<Rightarrow>
                    Return (\<lparr>Key = KeyPrefix az key, Modified = t, Size = n,
                              IsTerminal = strings_HasSuffix (KeyPrefix az key) ''/''\<rparr>, None))))"


section \<open>A blob service in memory\<close>

text \<open>
  To run the operations on concrete inputs, the SDK record is instantiated with a service
  that never fails for transport or credential reasons: its state is the list of the
  blobs it holds, each under its container and name. Uploading replaces the blob of that
  name, and reading, deleting or asking for the properties of a missing blob fails.
  \<open>now\<close> is the modification time the service gives to an upload.
\<close>

record Blob =
  content :: bytes
  modified :: Time

type_synonym service = "((string \<times> string) \<times> Blob) list"

definition blob_not_found :: error where
  "blob_not_found = ServiceError ''BlobNotFound''"

definition mem_upload :: "Time \<Rightarrow> azblob_Client \<Rightarrow> string \<Rightarrow> string \<Rightarrow> bytes \<Rightarrow> service \<Rightarrow> error option \<times> service" where
  "mem_upload now cl cont name val s =
     (None, ((cont, name), \<lparr>content = val, modified = now\<rparr>) # filter (\<lambda>kv. fst kv \<noteq> (cont, name)) s)"

definition mem_download :: "azblob_Client \<Rightarrow> string \<Rightarrow> string \<Rightarrow> service \<Rightarrow> error + Body" where
  "mem_download cl cont name s =
     (case map_of s (cont, name) of
        None \<Rightarrow> Inl blob_not_found
      | Some b \<Rightarrow> Inr \<lparr>chunks = [content b], failure = None\<rparr>)"

definition mem_delete :: "azblob_Client \<Rightarrow> string \<Rightarrow> string \<Rightarrow> service \<Rightarrow> error option \<times> service" where
  "mem_delete cl cont name s =
     (case map_of s (cont, name) of
        None \<Rightarrow> (Some blob_not_found, s)
      | Some b \<Rightarrow> (None, filter (\<lambda>kv. fst kv \<noteq> (cont, name)) s))"

definition mem_properties :: "azblob_Client \<Rightarrow> string \<Rightarrow> string \<Rightarrow> service \<Rightarrow> error + BlobProperties" where
  "mem_properties cl cont name s =
     (case map_of s (cont, name) of
        None \<Rightarrow> Inl blob_not_found
      | Some b \<Rightarrow>
          Inr \<lparr>LastModified = Some (modified b), ContentLength = Some (of_nat (length (content b)))\<rparr>)"

definition mem_pager :: "azblob_Client \<Rightarrow> string \<Rightarrow> string \<Rightarrow> service \<Rightarrow> (error + ListBlobsFlatResponse) list" where
  "mem_pager cl cont pfx s =
     [Inr \<lparr>Segment = Some \<lparr>BlobItems =
        map (\<lambda>kv. Some \<lparr>Name = Some (snd (fst kv))\<rparr>)
          (filter (\<lambda>kv. fst (fst kv) = cont \<and> strings_HasPrefix (snd (fst kv)) pfx) s)\<rparr>\<rparr>]"

definition mem_azblob :: "Time \<Rightarrow> service azblob" where
  "mem_azblob now =
     \<lparr>NewSharedKeyCredential = (\<lambda>name k. Inr \<lparr>credAccountName = name, credAccountKey = k\<rparr>),
      NewClientWithSharedKeyCredential = (\<lambda>url cred. Inr \<lparr>clientURL = url, clientCred = cred\<rparr>),
      UploadBuffer = mem_upload now,
      DownloadStream = mem_download,
      DeleteBlob = mem_delete,
      GetProperties = mem_properties,
      NewListBlobsFlatPager = mem_pager\<rparr>"

text \<open>A provisioned backend for the account \<open>acct\<close> and the container \<open>tls\<close>, with a given prefix.\<close>

definition backend :: "string \<Rightarrow> AzureBlob" where
  "backend pfx =
     \<lparr>AccountName = ''acct'', AccountKey = ''c2VjcmV0'', Container = ''tls'', Prefix = pfx,
      Client = \<lparr>clientURL = ''https://acct.blob.core.windows.net'',
                clientCred = \<lparr>credAccountName = ''acct'', credAccountKey = ''c2VjcmV0''\<rparr>\<rparr>\<rparr>"

definition t1 :: Time where
  "t1 = \<lparr>wall = 7, ext = 1700000000, loc = None\<rparr>"

text \<open>
  Three services that fail: one rejects the account key, one cannot build a client, and
  one answers every request for properties with a transport error.
\<close>

definition bad_credential :: "service azblob" where
  "bad_credential =
     (mem_azblob t1)\<lparr>NewSharedKeyCredential := (\<lambda>name k. Inl (ServiceError ''decode account key''))\<rparr>"

definition bad_client :: "service azblob" where
  "bad_client =
     (mem_azblob t1)\<lparr>NewClientWithSharedKeyCredential := (\<lambda>url cred. Inl (ServiceError ''invalid URL''))\<rparr>"

definition unreachable :: "service azblob" where
  "unreachable =
     (mem_azblob t1)\<lparr>GetProperties := (\<lambda>cl cont name s. Inl (ServiceError ''connection refused''))\<rparr>"

definition one_blob :: "string \<Rightarrow> service" where
  "one_blob name = [((''tls'', name), \<lparr>content = [1, 2, 3], modified = t1\<rparr>)]"


section \<open>Measures for the analysis of path.Clean\<close>

text \<open>
  Notions used to state and prove what \<open>path.Clean\<close> does to a relative path.
  They are not part of the program. \<open>net_depth p\<close> reads the
  elements of a path as the loop of \<open>path.Clean\<close> does and counts an ordinary element as
  \<open>+1\<close>, a \<open>..\<close> element as \<open>-1\<close> and an empty or \<open>.\<close> element as \<open>0\<close>: it is the
  number of levels the path goes down from where it starts. \<open>joinsep\<close> joins elements
  with \<open>/\<close>. An element is \<open>ordinary\<close> when it is not empty, holds no \<open>/\<close> and is
  neither \<open>.\<close> nor \<open>..\<close>.
\<close>

function net_depth :: "string \<Rightarrow> int" where
  "net_depth [] = 0"
| "net_depth (c # cs) =
     (if c = CHR ''/'' then net_depth cs
      else if c = CHR ''.'' \<and> at_sep cs then net_depth cs
      else if c = CHR ''.'' \<and> (case cs of [] \<Rightarrow> False | d # ds \<Rightarrow> d = CHR ''.'' \<and> at_sep ds) then
        net_depth (tl cs) - 1
      else net_depth (dropWhile (\<lambda>x. x \<noteq> CHR ''/'') (c # cs)) + 1)"
  by pat_completeness auto
termination
proof (relation "measure length")
  show "wf (measure length)" by simp
qed (auto simp: le_imp_less_Suc length_dropWhile_le split: list.splits)

fun joinsep :: "string list \<Rightarrow> string" where
  "joinsep [] = []"
| "joinsep [x] = x"
| "joinsep (x # y # ys) = x @ CHR ''/'' # joinsep (y # ys)"

definition ordinary :: "string \<Rightarrow> bool" where
  "ordinary e = (e \<noteq> [] \<and> CHR ''/'' \<notin> set e \<and> e \<noteq> ''.'' \<and> e \<noteq> ''..'')"

text \<open>
  \<open>root_depth d p\<close> is the measure for a path below the root: starting \<open>d\<close> elements
  below \<open>/\<close>, an ordinary element goes one level down and a \<open>..\<close> element one level up,
  but never above the root.
\<close>

function root_depth :: "nat \<Rightarrow> string \<Rightarrow> nat" where
  "root_depth d [] = d"
| "root_depth d (c # cs) =
     (if c = CHR ''/'' then root_depth d cs
      else if c = CHR ''.'' \<and> at_sep cs then root_depth d cs
      else if c = CHR ''.'' \<and> (case cs of [] \<Rightarrow> False | x # ds \<Rightarrow> x = CHR ''.'' \<and> at_sep ds) then
        root_depth (d - 1) (tl cs)
      else root_depth (d + 1) (dropWhile (\<lambda>x. x \<noteq> CHR ''/'') (c # cs)))"
  by pat_completeness auto
termination
proof (relation "measure (\<lambda>(d, p). length p)")
  show "wf (measure (\<lambda>(d, p). length p))" by simp
qed (auto simp: le_imp_less_Suc length_dropWhile_le split: list.splits)


section \<open>Evaluation of the path functions\<close>

lemma at_sep_simps: "at_sep [] = True" "at_sep (x # xs) = (x = CHR ''/'')"
  by (simp_all add: at_sep_def)

lemmas path_eval = path_Join_def path_Clean_def at_sep_def backtrack.simps

lemmas mem_eval = mem_azblob_def mem_upload_def mem_download_def mem_delete_def
  mem_properties_def mem_pager_def blob_not_found_def one_blob_def

text \<open>
  The model of \<open>path.Clean\<close> and \<open>path.Join\<close> on inputs that cover every branch of the loop:
  trailing and doubled slashes, \<open>.\<close> elements, \<open>..\<close> elements that remove an element,
  that pile up in front of a relative path, and that are dropped at the root.
\<close>

lemma path_Clean_examples:
  "path_Clean [] = ''.''"
  "path_Clean ''abc/def'' = ''abc/def''"
  "path_Clean ''../../abc'' = ''../../abc''"
  "path_Clean ''/'' = ''/''"
  "path_Clean ''abc/def/'' = ''abc/def''"
  "path_Clean ''./'' = ''.''"
  "path_Clean ''//abc//'' = ''/abc''"
  "path_Clean ''abc//def//ghi'' = ''abc/def/ghi''"
  "path_Clean ''/./abc/def'' = ''/abc/def''"
  "path_Clean ''abc/def/../ghi/../jkl'' = ''abc/jkl''"
  "path_Clean ''abc/def/../..'' = ''.''"
  "path_Clean ''/abc/def/../../..'' = ''/''"
  "path_Clean ''abc/def/../../../ghi/jkl/../../../mno'' = ''../../mno''"
  "path_Clean ''abc/../../././../def'' = ''../../def''"
  by (simp_all add: path_eval)

lemma path_Join_examples:
  "path_Join [] = []"
  "path_Join [[], []] = []"
  "path_Join [''a'', ''b''] = ''a/b''"
  "path_Join [''a'', []] = ''a''"
  "path_Join [[], ''b''] = ''b''"
  "path_Join [''/'', ''a''] = ''/a''"
  "path_Join [''a/'', ''b''] = ''a/b''"
  by (simp_all add: path_eval)

lemma backend_sel:
  "AccountName (backend p) = ''acct''" "AccountKey (backend p) = ''c2VjcmV0''"
  "Container (backend p) = ''tls''" "Prefix (backend p) = p"
  by (simp_all add: backend_def)

lemma KeyPrefix_certs_a: "KeyPrefix (backend ''certs'') ''a'' = ''certs/a''"
  by (simp add: KeyPrefix_def backend_def path_eval)

lemma KeyPrefix_empty_prefix: "KeyPrefix (backend []) ''a.crt'' = ''a.crt''"
  by (simp add: KeyPrefix_def backend_def path_eval)

lemma KeyPrefix_dot_a: "KeyPrefix (backend ''.'') ''a'' = ''a''"
  by (simp add: KeyPrefix_def backend_def path_eval)


section \<open>Prefixing of keys\<close>

text \<open>
  C2 (evaluation at the failing input). Backend with prefix \<open>certs\<close>, empty service:
  \<open>Store\<close> of the key \<open>a\<close> succeeds and writes the blob \<open>certs/a\<close>; on the state it
  leaves, \<open>Exists\<close> of the same key is false and \<open>Load\<close> of the same key fails with
  \<open>ErrNotExist\<close>, because \<open>Exists\<close> looks the key up without the prefix.
\<close>

theorem Store_then_Exists_misses:
  "fst (Store (mem_azblob t1) (backend ''certs'') ''a'' [1, 2, 3] []) = None
   \<and> snd (Store (mem_azblob t1) (backend ''certs'') ''a'' [1, 2, 3] []) = one_blob ''certs/a''
   \<and> Exists (mem_azblob t1) (backend ''certs'') ''a''
        (snd (Store (mem_azblob t1) (backend ''certs'') ''a'' [1, 2, 3] [])) = False
   \<and> Load (mem_azblob t1) (backend ''certs'') ''a''
        (snd (Store (mem_azblob t1) (backend ''certs'') ''a'' [1, 2, 3] [])) = ([], Some ErrNotExist)"
  by (simp add: Store_def Exists_def Load_def mem_eval KeyPrefix_certs_a backend_sel)

text \<open>
  C3 (evaluation at the failing input). With the prefix \<open>certs\<close>, the key \<open>a\<close> is
  prefixed to \<open>certs/a\<close>, and cutting the prefix leaves \<open>/a\<close>: the separator that
  \<open>path.Join\<close> put in stays.
\<close>

theorem CutKeyPrefix_KeyPrefix_leaves_slash:
  "KeyPrefix (backend ''certs'') ''a'' = ''certs/a''
   \<and> CutKeyPrefix (backend ''certs'') (KeyPrefix (backend ''certs'') ''a'') = ''/a''"
  by (simp add: KeyPrefix_certs_a CutKeyPrefix_def strings_CutPrefix_def strings_HasPrefix_def
      backend_sel)

text \<open>
  C4 (evaluation at the failing input). Backend with prefix \<open>certs\<close>, key \<open>a\<close>, resolved
  path \<open>certs/a\<close>. When only \<open>certs/a\<close> exists, \<open>Load\<close> fails with \<open>ErrNotExist\<close>;
  when only the blob \<open>a\<close> exists, the probe succeeds and \<open>Load\<close> fails with the error of
  the download, which is not \<open>ErrNotExist\<close>: the probe reads the path \<open>a\<close> and the
  fetch the path \<open>certs/a\<close>.
\<close>

theorem Load_probe_and_fetch_differ:
  "Load (mem_azblob t1) (backend ''certs'') ''a'' (one_blob ''certs/a'') = ([], Some ErrNotExist)
   \<and> Load (mem_azblob t1) (backend ''certs'') ''a'' (one_blob ''a'')
       = ([], Some (ServiceError ''BlobNotFound''))"
  by (simp add: Exists_def Load_def mem_eval KeyPrefix_certs_a backend_sel)


section \<open>Exists and Stat\<close>

text \<open>
  C5 (evaluation at the failing input). Backend without prefix, the blob \<open>a.crt\<close>
  exists: \<open>Stat\<close> of the key \<open>a.crt\<close>, which does not end with the separator, reports
  \<open>IsTerminal = False\<close>.
\<close>

theorem Stat_plain_key_not_terminal:
  "Stat (mem_azblob t1) (backend []) ''a.crt'' (one_blob ''a.crt'')
   = Return (\<lparr>Key = ''a.crt'', Modified = t1, Size = 3, IsTerminal = False\<rparr>, None)"
  by (simp add: Stat_def mem_eval KeyPrefix_empty_prefix strings_HasSuffix_def backend_sel)

text \<open>
  C6. \<open>Exists\<close> returns a boolean, and whatever the SDK answers: when the credential
  cannot be built, when the client cannot be built, or when the request for the
  properties of the blob fails, the result is false; the result is true only when all
  three calls succeed.
\<close>

theorem Exists_failures_collapse:
  "(NewSharedKeyCredential sdk (AccountName az) (AccountKey az) = Inl e
      \<longrightarrow> Exists sdk az key s = False)
   \<and> (NewSharedKeyCredential sdk (AccountName az) (AccountKey az) = Inr cred
      \<and> NewClientWithSharedKeyCredential sdk
           (''https://'' @ AccountName az @ ''.blob.core.windows.net/'') cred = Inl e
      \<longrightarrow> Exists sdk az key s = False)
   \<and> (NewSharedKeyCredential sdk (AccountName az) (AccountKey az) = Inr cred
      \<and> NewClientWithSharedKeyCredential sdk
           (''https://'' @ AccountName az @ ''.blob.core.windows.net/'') cred = Inr cl
      \<and> GetProperties sdk cl (Container az) key s = Inl e
      \<longrightarrow> Exists sdk az key s = False)
   \<and> (NewSharedKeyCredential sdk (AccountName az) (AccountKey az) = Inr cred
      \<and> NewClientWithSharedKeyCredential sdk
           (''https://'' @ AccountName az @ ''.blob.core.windows.net/'') cred = Inr cl
      \<and> GetProperties sdk cl (Container az) key s = Inr props
      \<longrightarrow> Exists sdk az key s = True)"
  by (simp add: Exists_def)

theorem Exists_failures_collapse_witness:
  "NewSharedKeyCredential bad_credential (AccountName (backend [])) (AccountKey (backend []))
     = Inl (ServiceError ''decode account key'')
   \<and> Exists bad_credential (backend []) ''a'' (one_blob ''a'') = False
   \<and> NewClientWithSharedKeyCredential bad_client ''https://acct.blob.core.windows.net/''
        \<lparr>credAccountName = ''acct'', credAccountKey = ''c2VjcmV0''\<rparr>
     = Inl (ServiceError ''invalid URL'')
   \<and> Exists bad_client (backend []) ''a'' (one_blob ''a'') = False
   \<and> GetProperties unreachable
        \<lparr>clientURL = ''https://acct.blob.core.windows.net/'',
          clientCred = \<lparr>credAccountName = ''acct'', credAccountKey = ''c2VjcmV0''\<rparr>\<rparr>
        ''tls'' ''a'' (one_blob ''a'')
     = Inl (ServiceError ''connection refused'')
   \<and> Exists unreachable (backend []) ''a'' (one_blob ''a'') = False
   \<and> Exists (mem_azblob t1) (backend []) ''a'' (one_blob ''a'') = True"
proof -
  let ?cred = "\<lparr>credAccountName = ''acct'', credAccountKey = ''c2VjcmV0''\<rparr>"
  let ?cl = "\<lparr>clientURL = ''https://acct.blob.core.windows.net/'', clientCred = ?cred\<rparr>"
  have c1: "NewSharedKeyCredential bad_credential (AccountName (backend [])) (AccountKey (backend []))
              = Inl (ServiceError ''decode account key'')"
    by (simp add: bad_credential_def)
  have c2: "NewSharedKeyCredential bad_client (AccountName (backend [])) (AccountKey (backend []))
              = Inr ?cred"
    by (simp add: bad_client_def mem_eval backend_sel)
  have c3: "NewClientWithSharedKeyCredential bad_client
              (''https://'' @ AccountName (backend []) @ ''.blob.core.windows.net/'') ?cred
              = Inl (ServiceError ''invalid URL'')"
    by (simp add: bad_client_def)
  have c4: "NewSharedKeyCredential unreachable (AccountName (backend [])) (AccountKey (backend []))
              = Inr ?cred"
    by (simp add: unreachable_def mem_eval backend_sel)
  have c5: "NewClientWithSharedKeyCredential unreachable
              (''https://'' @ AccountName (backend []) @ ''.blob.core.windows.net/'') ?cred
              = Inr ?cl"
    by (simp add: unreachable_def mem_eval backend_sel)
  have c6: "GetProperties unreachable ?cl (Container (backend [])) ''a'' (one_blob ''a'')
              = Inl (ServiceError ''connection refused'')"
    by (simp add: unreachable_def)
  have c7: "NewSharedKeyCredential (mem_azblob t1) (AccountName (backend [])) (AccountKey (backend []))
              = Inr ?cred"
    by (simp add: mem_eval backend_sel)
  have c8: "NewClientWithSharedKeyCredential (mem_azblob t1)
              (''https://'' @ AccountName (backend []) @ ''.blob.core.windows.net/'') ?cred
              = Inr ?cl"
    by (simp add: mem_eval backend_sel)
  have c9: "GetProperties (mem_azblob t1) ?cl (Container (backend [])) ''a'' (one_blob ''a'')
              = Inr \<lparr>LastModified = Some t1, ContentLength = Some 3\<rparr>"
    by (simp add: mem_eval backend_sel)
  have r1: "Exists bad_credential (backend []) ''a'' (one_blob ''a'') = False"
    using Exists_failures_collapse [of bad_credential "backend []"] c1 by blast
  have r2: "Exists bad_client (backend []) ''a'' (one_blob ''a'') = False"
    using Exists_failures_collapse [of bad_client "backend []"] c2 c3 by blast
  have r3: "Exists unreachable (backend []) ''a'' (one_blob ''a'') = False"
    using Exists_failures_collapse [of unreachable "backend []"] c4 c5 c6 by blast
  have r4: "Exists (mem_azblob t1) (backend []) ''a'' (one_blob ''a'') = True"
    using Exists_failures_collapse [of "mem_azblob t1" "backend []"] c7 c8 c9 by blast
  from c1 c3 c6 r1 r2 r3 r4 show ?thesis
    by (simp add: backend_sel)
qed

text \<open>
  C7. When the request for the properties of the resolved path fails, \<open>Stat\<close> returns the
  zero \<open>KeyInfo\<close> and no error. When it succeeds (with the modification time and the
  length that the service sends), \<open>Stat\<close> returns no error and a \<open>KeyInfo\<close> with that
  modification time and that size.
\<close>

theorem Stat_swallows_error:
  "(GetProperties sdk (Client az) (Container az) (KeyPrefix az key) s = Inl e
      \<longrightarrow> Stat sdk az key s = Return (zero_KeyInfo, None))
   \<and> (GetProperties sdk (Client az) (Container az) (KeyPrefix az key) s = Inr props
      \<and> LastModified props = Some t \<and> ContentLength props = Some n
      \<longrightarrow> (\<exists>info. Stat sdk az key s = Return (info, None)
            \<and> Modified info = t \<and> Size info = n))"
  by (simp add: Stat_def)

theorem Stat_swallows_error_witness:
  "GetProperties unreachable (Client (backend ''certs'')) (Container (backend ''certs''))
      (KeyPrefix (backend ''certs'') ''a'') (one_blob ''certs/a'')
     = Inl (ServiceError ''connection refused'')
   \<and> Stat unreachable (backend ''certs'') ''a'' (one_blob ''certs/a'') = Return (zero_KeyInfo, None)
   \<and> GetProperties (mem_azblob t1) (Client (backend ''certs'')) (Container (backend ''certs''))
      (KeyPrefix (backend ''certs'') ''a'') (one_blob ''certs/a'')
     = Inr \<lparr>LastModified = Some t1, ContentLength = Some 3\<rparr>
   \<and> (\<exists>info. Stat (mem_azblob t1) (backend ''certs'') ''a'' (one_blob ''certs/a'') = Return (info, None)
        \<and> Modified info = t1 \<and> Size info = 3)"
proof -
  have g1: "GetProperties unreachable (Client (backend ''certs'')) (Container (backend ''certs''))
      (KeyPrefix (backend ''certs'') ''a'') (one_blob ''certs/a'')
     = Inl (ServiceError ''connection refused'')"
    by (simp add: unreachable_def)
  have g2: "GetProperties (mem_azblob t1) (Client (backend ''certs'')) (Container (backend ''certs''))
      (KeyPrefix (backend ''certs'') ''a'') (one_blob ''certs/a'')
     = Inr \<lparr>LastModified = Some t1, ContentLength = Some 3\<rparr>"
    by (simp add: mem_eval KeyPrefix_certs_a backend_sel)
  have r1: "Stat unreachable (backend ''certs'') ''a'' (one_blob ''certs/a'') = Return (zero_KeyInfo, None)"
    using Stat_swallows_error [of unreachable "backend ''certs''" "''a''" "one_blob ''certs/a''"] g1
    by blast
  have r2: "\<exists>info. Stat (mem_azblob t1) (backend ''certs'') ''a'' (one_blob ''certs/a'') = Return (info, None)
        \<and> Modified info = t1 \<and> Size info = 3"
    using Stat_swallows_error [of "mem_azblob t1" "backend ''certs''" "''a''" "one_blob ''certs/a''"
        _ "\<lparr>LastModified = Some t1, ContentLength = Some 3\<rparr>" t1 3] g2
    by simp
  from g1 g2 r1 r2 show ?thesis by blast
qed


section \<open>Listing\<close>

text \<open>
  C8. For every prefix and every state of the service, \<open>List\<close> with the recursive flag
  set and \<open>List\<close> with the flag unset return the same result.
\<close>

theorem List_ignores_recursive:
  "List sdk az pfx True s = List sdk az pfx False s"
  by (simp add: List_def)


section \<open>Locking\<close>

text \<open>
  C1 (counterexample). On the empty service, \<open>Lock\<close> of the key \<open>example.com\<close> succeeds,
  a second \<open>Lock\<close> of the same key succeeds as well, and the service still holds no
  object: no lock object was created and the two calls were not exclusive.
\<close>

theorem Lock_twice_both_succeed:
  "fst (Lock (backend ''certs'') ''example.com'' ([] :: service)) = None
   \<and> fst (Lock (backend ''certs'') ''example.com''
            (snd (Lock (backend ''certs'') ''example.com'' ([] :: service)))) = None
   \<and> snd (Lock (backend ''certs'') ''example.com''
            (snd (Lock (backend ''certs'') ''example.com'' ([] :: service)))) = []"
  by (simp add: Lock_def)

text \<open>
  C1 (amended). For every backend, key and state of the service, \<open>Lock\<close> returns
  success at once and leaves the service as it was: it creates no lock object and
  establishes no ownership, so any number of \<open>Lock\<close> calls for the same key all succeed.
\<close>

theorem Lock_is_noop: "Lock az key s = (None, s)"
  by (simp add: Lock_def)


section \<open>The string representation\<close>

text \<open>
  C9. The string representation is built from the account name, the container and the
  prefix, each of which occurs in it, and it is the same for two backends that differ
  only in the account key (or in the client made from it).
\<close>

theorem String_independent_of_AccountKey:
  "String (az\<lparr>AccountKey := k, Client := c\<rparr>) = String az
   \<and> sublist (AccountName az) (String az)
   \<and> sublist (Container az) (String az)
   \<and> sublist (Prefix az) (String az)"
proof -
  have "String (az\<lparr>AccountKey := k, Client := c\<rparr>) = String az"
    by (simp add: String_def)
  moreover have "sublist (AccountName az) (String az)"
    unfolding String_def sublist_def by blast
  moreover have "sublist (Container az) (String az)"
    unfolding String_def sublist_def
    by (metis append.assoc)
  moreover have "sublist (Prefix az) (String az)"
    unfolding String_def sublist_def
    by (metis append.assoc append_Nil2)
  ultimately show ?thesis by blast
qed


section \<open>path.Clean on relative paths\<close>

text \<open>
  On a path that does not start with \<open>/\<close>, the buffer of \<open>path.Clean\<close> always holds some
  \<open>..\<close> elements followed by ordinary elements, joined by \<open>/\<close>, and \<open>dotdot\<close> is the
  length of the \<open>..\<close> part. It follows that cleaning a relative path keeps its net depth.
\<close>

lemma net_depth_sep: "net_depth (CHR ''/'' # cs) = net_depth cs"
  by simp

lemma net_depth_dot: "at_sep cs \<Longrightarrow> net_depth (CHR ''.'' # cs) = net_depth cs"
  by simp

lemma net_depth_dotdot: "at_sep ds \<Longrightarrow> net_depth (CHR ''.'' # CHR ''.'' # ds) = net_depth ds - 1"
  by (simp add: at_sep_simps)

lemma net_depth_elem:
  "c \<noteq> CHR ''/'' \<Longrightarrow> \<not> (c = CHR ''.'' \<and> at_sep cs)
   \<Longrightarrow> \<not> (c = CHR ''.'' \<and> (case cs of [] \<Rightarrow> False | d # ds \<Rightarrow> d = CHR ''.'' \<and> at_sep ds))
   \<Longrightarrow> net_depth (c # cs) = net_depth (dropWhile (\<lambda>x. x \<noteq> CHR ''/'') cs) + 1"
  by (cases "c = CHR ''.''") simp_all

lemma at_sep_append: "at_sep (a @ CHR ''/'' # b) = at_sep a"
  by (cases a) (simp_all add: at_sep_def)

lemma dropWhile_append_sep:
  "dropWhile (\<lambda>x. x \<noteq> CHR ''/'') (a @ CHR ''/'' # b) = dropWhile (\<lambda>x. x \<noteq> CHR ''/'') a @ CHR ''/'' # b"
  by (induction a) simp_all

lemma net_depth_append: "net_depth (a @ CHR ''/'' # b) = net_depth a + net_depth b"
proof (induction a rule: net_depth.induct)
  case 1
  show ?case by simp
next
  case (2 c cs)
  show ?case
  proof (cases "c = CHR ''/''")
    case True
    with 2 show ?thesis by simp
  next
    case nsep: False
    show ?thesis
    proof (cases "c = CHR ''.'' \<and> at_sep cs")
      case True
      with 2 nsep show ?thesis by (simp add: at_sep_append)
    next
      case ndot: False
      show ?thesis
      proof (cases "c = CHR ''.'' \<and> (case cs of [] \<Rightarrow> False | d # ds \<Rightarrow> d = CHR ''.'' \<and> at_sep ds)")
        case True
        then obtain ds where cs: "cs = CHR ''.'' # ds" and ds: "at_sep ds"
          by (auto split: list.splits)
        from 2(3) nsep ndot True have "net_depth (tl cs @ CHR ''/'' # b) = net_depth (tl cs) + net_depth b"
          by simp
        with nsep ndot True cs ds show ?thesis
          by (simp add: at_sep_append at_sep_simps)
      next
        case nn: False
        from 2(4) nsep ndot nn
        have ih: "net_depth (dropWhile (\<lambda>x. x \<noteq> CHR ''/'') (c # cs) @ CHR ''/'' # b)
                  = net_depth (dropWhile (\<lambda>x. x \<noteq> CHR ''/'') (c # cs)) + net_depth b"
          by simp
        have c1: "\<not> (c = CHR ''.'' \<and> at_sep (cs @ CHR ''/'' # b))"
          using ndot by (simp add: at_sep_append)
        have c2: "\<not> (c = CHR ''.'' \<and> (case cs @ CHR ''/'' # b of [] \<Rightarrow> False | d # ds \<Rightarrow> d = CHR ''.'' \<and> at_sep ds))"
          using nn ndot by (cases cs) (auto simp: at_sep_append at_sep_simps)
        have "net_depth ((c # cs) @ CHR ''/'' # b)
              = net_depth (dropWhile (\<lambda>x. x \<noteq> CHR ''/'') ((c # cs) @ CHR ''/'' # b)) + 1"
          using nsep c1 c2 by (cases "c = CHR ''.''") simp_all
        also have "\<dots> = net_depth (dropWhile (\<lambda>x. x \<noteq> CHR ''/'') (c # cs) @ CHR ''/'' # b) + 1"
          by (simp only: dropWhile_append_sep)
        also have "\<dots> = net_depth (dropWhile (\<lambda>x. x \<noteq> CHR ''/'') (c # cs)) + net_depth b + 1"
          using ih by simp
        also have "\<dots> = net_depth (c # cs) + net_depth b"
          using nsep ndot nn by (cases "c = CHR ''.''") simp_all
        finally show ?thesis .
      qed
    qed
  qed
qed


lemma dropWhile_no_sep: "CHR ''/'' \<notin> set e \<Longrightarrow> dropWhile (\<lambda>x. x \<noteq> CHR ''/'') e = []"
  by (induction e) auto

lemma takeWhile_no_sep: "CHR ''/'' \<notin> set e \<Longrightarrow> takeWhile (\<lambda>x. x \<noteq> CHR ''/'') e = e"
  by (induction e) auto

lemma at_sep_no_sep: "CHR ''/'' \<notin> set e \<Longrightarrow> at_sep e = (e = [])"
  by (cases e) (auto simp: at_sep_simps)

lemma net_depth_single:
  assumes "CHR ''/'' \<notin> set e"
  shows "net_depth e = (if e = [] \<or> e = ''.'' then 0 else if e = ''..'' then - 1 else 1)"
proof (cases e)
  case Nil
  then show ?thesis by simp
next
  case (Cons c cs)
  with assms have nsep: "c \<noteq> CHR ''/''" and cs: "CHR ''/'' \<notin> set cs" by auto
  from cs have sep_cs: "at_sep cs = (cs = [])" by (rule at_sep_no_sep)
  show ?thesis
  proof (cases "c = CHR ''.'' \<and> cs = []")
    case True
    then have "e = ''.''" using Cons by simp
    moreover have "net_depth ''.'' = 0"
      by (simp only: net_depth_dot at_sep_simps net_depth.simps(1))
    ultimately show ?thesis by simp
  next
    case ndot: False
    show ?thesis
    proof (cases "c = CHR ''.'' \<and> cs = ''.''")
      case True
      then have "e = ''..''" using Cons by simp
      moreover have "net_depth ''..'' = - 1"
        by (simp only: net_depth_dotdot at_sep_simps net_depth.simps(1))
      ultimately show ?thesis by simp
    next
      case ndd: False
      have n1: "\<not> (c = CHR ''.'' \<and> at_sep cs)"
        using ndot sep_cs by simp
      have n2: "\<not> (c = CHR ''.'' \<and> (case cs of [] \<Rightarrow> False | d # ds \<Rightarrow> d = CHR ''.'' \<and> at_sep ds))"
      proof (cases cs)
        case Nil
        then show ?thesis by simp
      next
        case (Cons d ds)
        with cs have "CHR ''/'' \<notin> set ds" by simp
        then have "at_sep ds = (ds = [])" by (rule at_sep_no_sep)
        with ndd Cons show ?thesis by simp
      qed
      have "net_depth (c # cs) = net_depth (dropWhile (\<lambda>x. x \<noteq> CHR ''/'') cs) + 1"
        using nsep n1 n2 by (rule net_depth_elem)
      also have "\<dots> = 1"
        using cs by (simp add: dropWhile_no_sep)
      finally have "net_depth e = 1" using Cons by simp
      moreover have "e \<noteq> [] \<and> e \<noteq> ''.'' \<and> e \<noteq> ''..''"
        using Cons ndot ndd by auto
      ultimately show ?thesis by simp
    qed
  qed
qed

declare net_depth.simps(2) [simp del]

lemma net_depth_dd: "net_depth ''..'' = - 1"
  by (simp add: net_depth_single)

lemma joinsep_snoc: "joinsep (xs @ [e]) = (if xs = [] then e else joinsep xs @ CHR ''/'' # e)"
  by (induction xs rule: joinsep.induct) simp_all

lemma joinsep_Cons: "joinsep (x # xs) = (if xs = [] then x else x @ CHR ''/'' # joinsep xs)"
  by (cases xs) simp_all

lemma joinsep_eq_Nil: "\<forall>x\<in>set xs. x \<noteq> [] \<Longrightarrow> (joinsep xs = []) = (xs = [])"
  by (cases xs) (auto simp: joinsep_Cons)

lemma net_depth_joinsep:
  "\<forall>x\<in>set xs. CHR ''/'' \<notin> set x \<Longrightarrow> net_depth (joinsep xs) = sum_list (map net_depth xs)"
proof (induction xs)
  case Nil
  show ?case by simp
next
  case (Cons x xs)
  then show ?case by (simp add: joinsep_Cons net_depth_append)
qed

lemma net_depth_ordinary: "ordinary e \<Longrightarrow> net_depth e = 1"
  by (simp add: ordinary_def net_depth_single)

lemma sum_net_depth_ordinary: "\<forall>e\<in>set es. ordinary e \<Longrightarrow> sum_list (map net_depth es) = int (length es)"
  by (induction es) (simp_all add: net_depth_ordinary)

lemma sum_net_depth_dotdots: "sum_list (map net_depth (replicate n ''..'')) = - int n"
  by (induction n) (simp_all add: net_depth_dd)

lemma no_sep_dotdots: "x \<in> set (replicate n ''..'') \<Longrightarrow> CHR ''/'' \<notin> set x"
  by (cases "n = 0") simp_all

lemma net_depth_render:
  assumes "\<forall>e\<in>set es. ordinary e"
  shows "net_depth (joinsep (replicate n ''..'' @ es)) = int (length es) - int n"
proof -
  have "\<forall>x\<in>set (replicate n ''..'' @ es). CHR ''/'' \<notin> set x"
  proof
    fix x assume "x \<in> set (replicate n ''..'' @ es)"
    then have "x \<in> set (replicate n ''..'') \<or> x \<in> set es"
      by (simp only: set_append Un_iff)
    then show "CHR ''/'' \<notin> set x"
    proof
      assume "x \<in> set (replicate n ''..'')"
      then show ?thesis by (rule no_sep_dotdots)
    next
      assume "x \<in> set es"
      with assms have "ordinary x" by blast
      then show ?thesis by (simp add: ordinary_def)
    qed
  qed
  then have "net_depth (joinsep (replicate n ''..'' @ es))
             = sum_list (map net_depth (replicate n ''..'' @ es))"
    by (rule net_depth_joinsep)
  also have "\<dots> = sum_list (map net_depth (replicate n ''..'')) + sum_list (map net_depth es)"
    by (simp only: map_append sum_list_append)
  also have "\<dots> = - int n + int (length es)"
    by (simp only: sum_net_depth_ordinary [OF assms] sum_net_depth_dotdots)
  finally show ?thesis by simp
qed

lemma backtrack_to_sep:
  assumes "CHR ''/'' \<notin> set e" and "dd \<le> length pre" and "j \<le> length e"
  shows "backtrack (pre @ CHR ''/'' # e) dd (length pre + j) = length pre"
  using assms(3)
proof (induction j)
  case 0
  show ?case by (simp add: backtrack.simps [of _ _ "length pre"])
next
  case (Suc j)
  then have j: "j < length e" by simp
  then have "e ! j \<in> set e" by simp
  with assms(1) have ne: "e ! j \<noteq> CHR ''/''" by metis
  have "(pre @ CHR ''/'' # e) ! (length pre + Suc j) = e ! j"
    by (simp add: nth_append)
  with ne assms(2) have "backtrack (pre @ CHR ''/'' # e) dd (length pre + Suc j)
        = backtrack (pre @ CHR ''/'' # e) dd (length pre + j)"
    by (subst backtrack.simps) simp
  with Suc show ?case by simp
qed

lemma backtrack_to_start:
  assumes "CHR ''/'' \<notin> set e" and "j < length e"
  shows "backtrack e 0 j = 0"
  using assms(2)
proof (induction j)
  case 0
  show ?case by (simp add: backtrack.simps [of _ _ 0])
next
  case (Suc j)
  then have "e ! Suc j \<in> set e" by simp
  with assms(1) have ne: "e ! Suc j \<noteq> CHR ''/''" by metis
  then have "backtrack e 0 (Suc j) = backtrack e 0 j"
    by (subst backtrack.simps) simp
  with Suc show ?case by simp
qed


lemma clean_loop_sep: "clean_loop r (CHR ''/'' # cs) out dd = clean_loop r cs out dd"
  by simp

lemma clean_loop_dot: "at_sep cs \<Longrightarrow> clean_loop r (CHR ''.'' # cs) out dd = clean_loop r cs out dd"
  by simp

lemma clean_loop_dotdot_back:
  "at_sep ds \<Longrightarrow> length out > dd \<Longrightarrow>
   clean_loop r (CHR ''.'' # CHR ''.'' # ds) out dd
     = clean_loop r ds (take (backtrack out dd (length out - 1)) out) dd"
  by (simp add: at_sep_simps)

lemma clean_loop_dotdot_push:
  "at_sep ds \<Longrightarrow> \<not> length out > dd \<Longrightarrow>
   clean_loop False (CHR ''.'' # CHR ''.'' # ds) out dd
     = clean_loop False ds ((if length out > 0 then out @ ''/'' else out) @ ''..'')
         (length ((if length out > 0 then out @ ''/'' else out) @ ''..''))"
  by (simp add: at_sep_simps)

lemma clean_loop_elem:
  "c \<noteq> CHR ''/'' \<Longrightarrow> \<not> (c = CHR ''.'' \<and> at_sep cs)
   \<Longrightarrow> \<not> (c = CHR ''.'' \<and> (case cs of [] \<Rightarrow> False | d # ds \<Rightarrow> d = CHR ''.'' \<and> at_sep ds))
   \<Longrightarrow> clean_loop False (c # cs) out dd
       = clean_loop False (dropWhile (\<lambda>x. x \<noteq> CHR ''/'') cs)
           ((if length out \<noteq> 0 then out @ ''/'' else out) @ c # takeWhile (\<lambda>x. x \<noteq> CHR ''/'') cs) dd"
  by (cases "c = CHR ''.''") simp_all

declare clean_loop.simps(2) [simp del]

lemma length_joinsep_append: "length (joinsep xs) \<le> length (joinsep (xs @ ys))"
proof (induction ys rule: rev_induct)
  case Nil
  show ?case by simp
next
  case (snoc y ys)
  have "length (joinsep (xs @ ys)) \<le> length (joinsep ((xs @ ys) @ [y]))"
    by (simp only: joinsep_snoc) simp
  with snoc show ?case by simp
qed

lemma nonempty_elems:
  assumes "\<forall>e\<in>set es. ordinary e"
  shows "\<forall>x\<in>set (replicate n ''..'' @ es). x \<noteq> []"
proof
  fix x assume "x \<in> set (replicate n ''..'' @ es)"
  then have "x \<in> set (replicate n ''..'') \<or> x \<in> set es"
    by (simp only: set_append Un_iff)
  then show "x \<noteq> []"
  proof
    assume "x \<in> set (replicate n ''..'')"
    then show ?thesis by (cases "n = 0") simp_all
  next
    assume "x \<in> set es"
    with assms have "ordinary x" by blast
    then show ?thesis by (simp add: ordinary_def)
  qed
qed

lemma render_eq_Nil:
  assumes "\<forall>e\<in>set es. ordinary e"
  shows "(joinsep (replicate n ''..'' @ es) = []) = (n = 0 \<and> es = [])"
proof -
  have "(joinsep (replicate n ''..'' @ es) = []) = (replicate n ''..'' @ es = [])"
    using nonempty_elems [OF assms] by (rule joinsep_eq_Nil)
  then show ?thesis by simp
qed

lemma render_snoc:
  assumes "\<forall>e\<in>set es. ordinary e"
  shows "joinsep (replicate n ''..'' @ es @ [e])
         = (if joinsep (replicate n ''..'' @ es) = [] then e
            else joinsep (replicate n ''..'' @ es) @ CHR ''/'' # e)"
proof -
  have "joinsep ((replicate n ''..'' @ es) @ [e])
        = (if replicate n ''..'' @ es = [] then e
           else joinsep (replicate n ''..'' @ es) @ CHR ''/'' # e)"
    by (rule joinsep_snoc)
  moreover have "(joinsep (replicate n ''..'' @ es) = []) = (replicate n ''..'' @ es = [])"
    using nonempty_elems [OF assms] by (rule joinsep_eq_Nil)
  ultimately show ?thesis by simp
qed

lemma render_longer:
  assumes "\<forall>e\<in>set es. ordinary e"
  shows "(length (joinsep (replicate n ''..'' @ es)) > length (joinsep (replicate n ''..''))) = (es \<noteq> [])"
proof (cases es rule: rev_cases)
  case Nil
  then show ?thesis by simp
next
  case (snoc es0 e)
  with assms have es0: "\<forall>e\<in>set es0. ordinary e" and e: "ordinary e" by simp_all
  from e have ne: "e \<noteq> []" by (simp add: ordinary_def)
  have le: "length (joinsep (replicate n ''..'')) \<le> length (joinsep (replicate n ''..'' @ es0))"
    by (rule length_joinsep_append)
  have "length (joinsep (replicate n ''..'' @ es0 @ [e])) > length (joinsep (replicate n ''..''))"
  proof (cases "joinsep (replicate n ''..'' @ es0) = []")
    case True
    with le have "length (joinsep (replicate n ''..'')) = 0" by simp
    moreover from True have "joinsep (replicate n ''..'' @ es0 @ [e]) = e"
      by (simp add: render_snoc [OF es0])
    ultimately show ?thesis using ne by simp
  next
    case False
    then have "joinsep (replicate n ''..'' @ es0 @ [e]) = joinsep (replicate n ''..'' @ es0) @ CHR ''/'' # e"
      by (simp add: render_snoc [OF es0])
    with le show ?thesis by simp
  qed
  with snoc show ?thesis by simp
qed

lemma render_backtrack:
  assumes es0: "\<forall>e\<in>set es0. ordinary e" and e: "ordinary e"
  shows "take (backtrack (joinsep (replicate n ''..'' @ es0 @ [e])) (length (joinsep (replicate n ''..'')))
                 (length (joinsep (replicate n ''..'' @ es0 @ [e])) - 1))
              (joinsep (replicate n ''..'' @ es0 @ [e]))
         = joinsep (replicate n ''..'' @ es0)"
proof (cases "joinsep (replicate n ''..'' @ es0) = []")
  case True
  then have n: "n = 0" and "es0 = []" using render_eq_Nil [OF es0] by simp_all
  then have out: "joinsep (replicate n ''..'' @ es0 @ [e]) = e" by simp
  from e have "CHR ''/'' \<notin> set e" and "length e - 1 < length e"
    by (simp_all add: ordinary_def)
  then have "backtrack e 0 (length e - 1) = 0" by (rule backtrack_to_start)
  with out n True show ?thesis by simp
next
  case False
  let ?pre = "joinsep (replicate n ''..'' @ es0)"
  from False have out: "joinsep (replicate n ''..'' @ es0 @ [e]) = ?pre @ CHR ''/'' # e"
    by (simp add: render_snoc [OF es0])
  have le: "length (joinsep (replicate n ''..'')) \<le> length ?pre"
    by (rule length_joinsep_append)
  from e have nosep: "CHR ''/'' \<notin> set e" by (simp add: ordinary_def)
  have "backtrack (?pre @ CHR ''/'' # e) (length (joinsep (replicate n ''..''))) (length ?pre + length e)
        = length ?pre"
    using nosep le by (rule backtrack_to_sep) simp
  then show ?thesis by (simp add: out)
qed

lemma render_push:
  "(if length (joinsep (replicate n ''..'')) > 0 then joinsep (replicate n ''..'') @ ''/''
    else joinsep (replicate n ''..'')) @ ''..''
   = joinsep (replicate (Suc n) ''..'')"
proof -
  have "joinsep (replicate (Suc n) ''..'') = joinsep (replicate n ''..'' @ [] @ [''..''])"
    by (simp add: replicate_append_same)
  also have "\<dots> = (if joinsep (replicate n ''..'' @ []) = [] then ''..''
                  else joinsep (replicate n ''..'' @ []) @ CHR ''/'' # ''..'')"
    by (rule render_snoc) simp
  finally show ?thesis by simp
qed

lemma elem_ordinary:
  assumes "c \<noteq> CHR ''/''" and "\<not> (c = CHR ''.'' \<and> at_sep cs)"
    and "\<not> (c = CHR ''.'' \<and> (case cs of [] \<Rightarrow> False | d # ds \<Rightarrow> d = CHR ''.'' \<and> at_sep ds))"
  shows "ordinary (c # takeWhile (\<lambda>x. x \<noteq> CHR ''/'') cs)"
proof -
  have nosep: "CHR ''/'' \<notin> set (c # takeWhile (\<lambda>x. x \<noteq> CHR ''/'') cs)"
    using assms(1) by (auto dest: set_takeWhileD)
  have nd: "c # takeWhile (\<lambda>x. x \<noteq> CHR ''/'') cs \<noteq> ''.''"
  proof
    assume "c # takeWhile (\<lambda>x. x \<noteq> CHR ''/'') cs = ''.''"
    then have "c = CHR ''.''" and "takeWhile (\<lambda>x. x \<noteq> CHR ''/'') cs = []" by simp_all
    then have "c = CHR ''.'' \<and> at_sep cs" by (cases cs) (auto simp: at_sep_simps split: if_splits)
    with assms(2) show False by simp
  qed
  have ndd: "c # takeWhile (\<lambda>x. x \<noteq> CHR ''/'') cs \<noteq> ''..''"
  proof
    assume eq: "c # takeWhile (\<lambda>x. x \<noteq> CHR ''/'') cs = ''..''"
    then have c: "c = CHR ''.''" and tw: "takeWhile (\<lambda>x. x \<noteq> CHR ''/'') cs = ''.''" by simp_all
    from tw obtain ds where cs: "cs = CHR ''.'' # ds" and "takeWhile (\<lambda>x. x \<noteq> CHR ''/'') ds = []"
      by (cases cs) (auto split: if_splits)
    then have "at_sep ds" by (cases ds) (auto simp: at_sep_simps split: if_splits)
    with c cs assms(3) show False by simp
  qed
  from nosep nd ndd show ?thesis by (simp add: ordinary_def)
qed


lemma net_depth_clean_loop:
  assumes "\<forall>e\<in>set es. ordinary e"
  shows "net_depth (clean_loop False p (joinsep (replicate n ''..'' @ es))
                      (length (joinsep (replicate n ''..''))))
         = int (length es) - int n + net_depth p"
  using assms
proof (induction p arbitrary: n es rule: net_depth.induct)
  case 1
  then show ?case by (simp add: net_depth_render)
next
  case (2 c cs)
  note ord = \<open>\<forall>e\<in>set es. ordinary e\<close>
  show ?case
  proof (cases "c = CHR ''/''")
    case True
    with 2(1) [OF True ord] show ?thesis
      by (simp add: clean_loop_sep net_depth_sep)
  next
    case nsep: False
    show ?thesis
    proof (cases "c = CHR ''.'' \<and> at_sep cs")
      case True
      with 2(2) [OF nsep True ord] show ?thesis
        by (simp add: clean_loop_dot net_depth_dot)
    next
      case ndot: False
      show ?thesis
      proof (cases "c = CHR ''.'' \<and> (case cs of [] \<Rightarrow> False | d # ds \<Rightarrow> d = CHR ''.'' \<and> at_sep ds)")
        case True
        then obtain ds where c: "c = CHR ''.''" and cs: "cs = CHR ''.'' # ds" and ds: "at_sep ds"
          by (auto split: list.splits)
        have nd: "net_depth (c # cs) = net_depth ds - 1"
          using c cs ds by (simp add: net_depth_dotdot)
        show ?thesis
        proof (cases es rule: rev_cases)
          case Nil
          have ih: "net_depth (clean_loop False (tl cs) (joinsep (replicate (Suc n) ''..'' @ []))
                      (length (joinsep (replicate (Suc n) ''..''))))
                    = int (length ([] :: string list)) - int (Suc n) + net_depth (tl cs)"
            by (rule 2(3) [OF nsep ndot True]) simp
          have notgt: "\<not> length (joinsep (replicate n ''..'')) > length (joinsep (replicate n ''..''))"
            by simp
          have "clean_loop False (CHR ''.'' # CHR ''.'' # ds) (joinsep (replicate n ''..''))
                      (length (joinsep (replicate n ''..'')))
                = clean_loop False ds
                    ((if length (joinsep (replicate n ''..'')) > 0 then joinsep (replicate n ''..'') @ ''/''
                      else joinsep (replicate n ''..'')) @ ''..'')
                    (length ((if length (joinsep (replicate n ''..'')) > 0 then joinsep (replicate n ''..'') @ ''/''
                      else joinsep (replicate n ''..'')) @ ''..''))"
            using ds notgt by (rule clean_loop_dotdot_push)
          then have "clean_loop False (c # cs) (joinsep (replicate n ''..'' @ es))
                      (length (joinsep (replicate n ''..'')))
                = clean_loop False ds (joinsep (replicate (Suc n) ''..''))
                      (length (joinsep (replicate (Suc n) ''..'')))"
            unfolding c cs Nil by (simp only: render_push append_Nil2)
          with ih nd cs Nil show ?thesis by simp
        next
          case (snoc es0 e)
          with ord have es0: "\<forall>e\<in>set es0. ordinary e" and e: "ordinary e" by simp_all
          have ih: "net_depth (clean_loop False (tl cs) (joinsep (replicate n ''..'' @ es0))
                      (length (joinsep (replicate n ''..''))))
                    = int (length es0) - int n + net_depth (tl cs)"
            by (rule 2(3) [OF nsep ndot True es0])
          have "length (joinsep (replicate n ''..'' @ es)) > length (joinsep (replicate n ''..''))"
            using render_longer [OF ord, of n] snoc by simp
          with ds have "clean_loop False (c # cs) (joinsep (replicate n ''..'' @ es))
                      (length (joinsep (replicate n ''..'')))
                = clean_loop False ds
                    (take (backtrack (joinsep (replicate n ''..'' @ es)) (length (joinsep (replicate n ''..'')))
                       (length (joinsep (replicate n ''..'' @ es)) - 1)) (joinsep (replicate n ''..'' @ es)))
                    (length (joinsep (replicate n ''..'')))"
            unfolding c cs by (rule clean_loop_dotdot_back)
          also have "\<dots> = clean_loop False ds (joinsep (replicate n ''..'' @ es0))
                    (length (joinsep (replicate n ''..'')))"
            unfolding snoc by (simp only: render_backtrack [OF es0 e])
          finally show ?thesis using ih nd cs snoc by simp
        qed
      next
        case nn: False
        let ?e = "c # takeWhile (\<lambda>x. x \<noteq> CHR ''/'') cs"
        have e: "ordinary ?e" using nsep ndot nn by (rule elem_ordinary)
        with ord have ord': "\<forall>x\<in>set (es @ [?e]). ordinary x" by simp
        have dw: "dropWhile (\<lambda>x. x \<noteq> CHR ''/'') (c # cs) = dropWhile (\<lambda>x. x \<noteq> CHR ''/'') cs"
          using nsep by simp
        have ih: "net_depth (clean_loop False (dropWhile (\<lambda>x. x \<noteq> CHR ''/'') cs)
                      (joinsep (replicate n ''..'' @ es @ [?e])) (length (joinsep (replicate n ''..''))))
                    = int (length (es @ [?e])) - int n + net_depth (dropWhile (\<lambda>x. x \<noteq> CHR ''/'') cs)"
          using 2(4) [OF nsep ndot nn ord', of n] by (simp only: dw)
        have out: "(if length (joinsep (replicate n ''..'' @ es)) \<noteq> 0
                    then joinsep (replicate n ''..'' @ es) @ ''/''
                    else joinsep (replicate n ''..'' @ es)) @ ?e
                   = joinsep (replicate n ''..'' @ es @ [?e])"
          by (simp add: render_snoc [OF ord])
        have "clean_loop False (c # cs) (joinsep (replicate n ''..'' @ es))
                      (length (joinsep (replicate n ''..'')))
              = clean_loop False (dropWhile (\<lambda>x. x \<noteq> CHR ''/'') cs)
                  ((if length (joinsep (replicate n ''..'' @ es)) \<noteq> 0
                    then joinsep (replicate n ''..'' @ es) @ ''/''
                    else joinsep (replicate n ''..'' @ es)) @ ?e)
                  (length (joinsep (replicate n ''..'')))"
          using nsep ndot nn by (rule clean_loop_elem)
        then have "clean_loop False (c # cs) (joinsep (replicate n ''..'' @ es))
                      (length (joinsep (replicate n ''..'')))
              = clean_loop False (dropWhile (\<lambda>x. x \<noteq> CHR ''/'') cs)
                  (joinsep (replicate n ''..'' @ es @ [?e])) (length (joinsep (replicate n ''..'')))"
          by (simp only: out)
        moreover have "net_depth (c # cs) = net_depth (dropWhile (\<lambda>x. x \<noteq> CHR ''/'') cs) + 1"
          using nsep ndot nn by (rule net_depth_elem)
        ultimately show ?thesis using ih by simp
      qed
    qed
  qed
qed

lemma net_depth_dot_elem: "net_depth ''.'' = 0"
  by (simp add: net_depth_single)

lemma net_depth_path_Clean:
  assumes "p = [] \<or> hd p \<noteq> CHR ''/''"
  shows "net_depth (path_Clean p) = net_depth p"
proof (cases "p = []")
  case True
  then show ?thesis by (simp add: path_Clean_def net_depth_dot_elem)
next
  case False
  with assms have rel: "hd p \<noteq> CHR ''/''" by simp
  have "net_depth (clean_loop False p (joinsep (replicate 0 ''..'' @ []))
                      (length (joinsep (replicate 0 ''..''))))
         = int (length ([] :: string list)) - int 0 + net_depth p"
    by (rule net_depth_clean_loop) simp
  then have nd: "net_depth (clean_loop False p [] 0) = net_depth p" by simp
  show ?thesis
  proof (cases "clean_loop False p [] 0 = []")
    case True
    with nd have "net_depth p = 0" by simp
    with True False rel show ?thesis by (simp add: path_Clean_def net_depth_dot_elem)
  next
    case False
    with \<open>p \<noteq> []\<close> rel nd show ?thesis by (simp add: path_Clean_def)
  qed
qed

lemma path_Join_relative:
  assumes "pfx \<noteq> []"
  shows "path_Join [pfx, key] = path_Clean (pfx @ CHR ''/'' # key)"
  using assms by (simp add: path_Join_def)

lemma net_depth_KeyPrefix:
  assumes "Prefix az \<noteq> []" and "hd (Prefix az) \<noteq> CHR ''/''"
  shows "net_depth (KeyPrefix az key) = net_depth (Prefix az) + net_depth key"
proof -
  have "hd (Prefix az @ CHR ''/'' # key) \<noteq> CHR ''/''"
    using assms by simp
  then have "net_depth (path_Clean (Prefix az @ CHR ''/'' # key)) = net_depth (Prefix az @ CHR ''/'' # key)"
    by (simp add: net_depth_path_Clean)
  then show ?thesis
    using assms(1) by (simp add: KeyPrefix_def path_Join_relative net_depth_append)
qed

lemma net_depth_nonneg: "CHR ''.'' \<notin> set s \<Longrightarrow> 0 \<le> net_depth s"
proof (induction s rule: net_depth.induct)
  case 1
  show ?case by simp
next
  case (2 c cs)
  then have c: "c \<noteq> CHR ''.''" and cs: "CHR ''.'' \<notin> set cs" by auto
  show ?case
  proof (cases "c = CHR ''/''")
    case True
    with 2 cs show ?thesis by (simp add: net_depth_sep)
  next
    case False
    have "CHR ''.'' \<notin> set (dropWhile (\<lambda>x. x \<noteq> CHR ''/'') (c # cs))"
      using 2(5) by (metis set_dropWhileD)
    with 2(4) False c have "0 \<le> net_depth (dropWhile (\<lambda>x. x \<noteq> CHR ''/'') (c # cs))" by simp
    moreover have "net_depth (c # cs) = net_depth (dropWhile (\<lambda>x. x \<noteq> CHR ''/'') cs) + 1"
      using False c by (simp add: net_depth_elem)
    ultimately show ?thesis using False by simp
  qed
qed

lemma net_depth_plain_prefix:
  assumes "s \<noteq> []" and "hd s \<noteq> CHR ''/''" and "CHR ''.'' \<notin> set s"
  shows "1 \<le> net_depth s"
proof -
  from assms obtain c cs where s: "s = c # cs" and c: "c \<noteq> CHR ''/''" "c \<noteq> CHR ''.''"
    by (cases s) auto
  have "CHR ''.'' \<notin> set (dropWhile (\<lambda>x. x \<noteq> CHR ''/'') cs)"
    using assms(3) s by (metis set_dropWhileD set_subset_Cons subsetD)
  then have "0 \<le> net_depth (dropWhile (\<lambda>x. x \<noteq> CHR ''/'') cs)" by (rule net_depth_nonneg)
  moreover have "net_depth (c # cs) = net_depth (dropWhile (\<lambda>x. x \<noteq> CHR ''/'') cs) + 1"
    using c by (simp add: net_depth_elem)
  ultimately show ?thesis using s by simp
qed

lemma KeyPrefix_differs:
  assumes "Prefix az \<noteq> []" and "hd (Prefix az) \<noteq> CHR ''/''" and "net_depth (Prefix az) \<noteq> 0"
  shows "KeyPrefix az key \<noteq> key"
proof
  assume "KeyPrefix az key = key"
  then have "net_depth (KeyPrefix az key) = net_depth key" by simp
  with net_depth_KeyPrefix [OF assms(1,2), of key] have "net_depth (Prefix az) = 0" by simp
  with assms(3) show False by simp
qed

text \<open>
  Some prefixes and their net depth. The last three have net depth zero, and for each of
  them some key is left unchanged by \<open>KeyPrefix\<close>.
\<close>

lemma net_depth_examples:
  "net_depth ''certs'' = 1" "net_depth ''example.com/certs/'' = 2" "net_depth ''..'' = - 1"
  "net_depth ''.'' = 0" "net_depth ''a/..'' = 0" "net_depth ''../a'' = 0"
  by (simp_all add: net_depth.simps at_sep_simps)

lemma KeyPrefix_unchanged_examples:
  "KeyPrefix (backend ''a/..'') ''b'' = ''b''" "KeyPrefix (backend ''../a'') ''../b'' = ''../b''"
  by (simp_all add: KeyPrefix_def backend_def path_eval clean_loop.simps)


section \<open>path.Clean on rooted paths\<close>

text \<open>
  On a path that starts with \<open>/\<close>, the buffer of \<open>path.Clean\<close> always holds \<open>/\<close> followed
  by ordinary elements joined by \<open>/\<close>, and their number is the \<open>root_depth\<close> of what has
  been read.
\<close>

lemma root_depth_sep: "root_depth d (CHR ''/'' # cs) = root_depth d cs"
  by simp

lemma root_depth_dot: "at_sep cs \<Longrightarrow> root_depth d (CHR ''.'' # cs) = root_depth d cs"
  by simp

lemma root_depth_dotdot:
  "at_sep ds \<Longrightarrow> root_depth d (CHR ''.'' # CHR ''.'' # ds) = root_depth (d - 1) ds"
  by (simp add: at_sep_simps)

lemma root_depth_elem:
  "c \<noteq> CHR ''/'' \<Longrightarrow> \<not> (c = CHR ''.'' \<and> at_sep cs)
   \<Longrightarrow> \<not> (c = CHR ''.'' \<and> (case cs of [] \<Rightarrow> False | x # ds \<Rightarrow> x = CHR ''.'' \<and> at_sep ds))
   \<Longrightarrow> root_depth d (c # cs) = root_depth (d + 1) (dropWhile (\<lambda>x. x \<noteq> CHR ''/'') cs)"
  by (cases "c = CHR ''.''") simp_all

declare root_depth.simps(2) [simp del]

lemma root_depth_append: "root_depth d (a @ CHR ''/'' # b) = root_depth (root_depth d a) b"
proof (induction a arbitrary: d rule: net_depth.induct)
  case 1
  show ?case by (simp add: root_depth_sep)
next
  case (2 c cs)
  show ?case
  proof (cases "c = CHR ''/''")
    case True
    with 2(1) [OF True] show ?thesis by (simp add: root_depth_sep)
  next
    case nsep: False
    show ?thesis
    proof (cases "c = CHR ''.'' \<and> at_sep cs")
      case True
      then have "at_sep (cs @ CHR ''/'' # b)" by (simp add: at_sep_append)
      with True 2(2) [OF nsep True] show ?thesis by (simp add: root_depth_dot)
    next
      case ndot: False
      show ?thesis
      proof (cases "c = CHR ''.'' \<and> (case cs of [] \<Rightarrow> False | x # ds \<Rightarrow> x = CHR ''.'' \<and> at_sep ds)")
        case True
        then obtain ds where c: "c = CHR ''.''" and cs: "cs = CHR ''.'' # ds" and ds: "at_sep ds"
          by (auto split: list.splits)
        from ds have ds': "at_sep (ds @ CHR ''/'' # b)" by (simp add: at_sep_append)
        have "root_depth (d - 1) (tl cs @ CHR ''/'' # b) = root_depth (root_depth (d - 1) (tl cs)) b"
          by (rule 2(3) [OF nsep ndot True])
        then show ?thesis
          using ds ds' by (simp add: c cs root_depth_dotdot)
      next
        case nn: False
        have c1: "\<not> (c = CHR ''.'' \<and> at_sep (cs @ CHR ''/'' # b))"
          using ndot by (simp add: at_sep_append)
        have c2: "\<not> (c = CHR ''.'' \<and> (case cs @ CHR ''/'' # b of [] \<Rightarrow> False | x # ds \<Rightarrow> x = CHR ''.'' \<and> at_sep ds))"
          using nn ndot by (cases cs) (auto simp: at_sep_append at_sep_simps)
        have dw: "dropWhile (\<lambda>x. x \<noteq> CHR ''/'') (c # cs) = dropWhile (\<lambda>x. x \<noteq> CHR ''/'') cs"
          using nsep by simp
        have ih: "root_depth (d + 1) (dropWhile (\<lambda>x. x \<noteq> CHR ''/'') cs @ CHR ''/'' # b)
                  = root_depth (root_depth (d + 1) (dropWhile (\<lambda>x. x \<noteq> CHR ''/'') cs)) b"
          using 2(4) [OF nsep ndot nn, of "d + 1"] by (simp only: dw)
        have "root_depth d ((c # cs) @ CHR ''/'' # b)
              = root_depth (d + 1) (dropWhile (\<lambda>x. x \<noteq> CHR ''/'') (cs @ CHR ''/'' # b))"
          using root_depth_elem [OF nsep c1 c2] by simp
        also have "\<dots> = root_depth (d + 1) (dropWhile (\<lambda>x. x \<noteq> CHR ''/'') cs @ CHR ''/'' # b)"
          by (simp only: dropWhile_append_sep)
        also have "\<dots> = root_depth (root_depth (d + 1) (dropWhile (\<lambda>x. x \<noteq> CHR ''/'') cs)) b"
          by (rule ih)
        also have "\<dots> = root_depth (root_depth d (c # cs)) b"
          using root_depth_elem [OF nsep ndot nn] by simp
        finally show ?thesis .
      qed
    qed
  qed
qed

lemma root_depth_ordinary:
  assumes "ordinary e"
  shows "root_depth d e = d + 1"
proof -
  from assms obtain c cs where e: "e = c # cs" by (cases e) (auto simp: ordinary_def)
  from assms e have nsep: "c \<noteq> CHR ''/''" and cs: "CHR ''/'' \<notin> set cs"
    by (auto simp: ordinary_def)
  from cs have sep_cs: "at_sep cs = (cs = [])" by (rule at_sep_no_sep)
  have n1: "\<not> (c = CHR ''.'' \<and> at_sep cs)"
    using assms e sep_cs by (auto simp: ordinary_def)
  have n2: "\<not> (c = CHR ''.'' \<and> (case cs of [] \<Rightarrow> False | x # ds \<Rightarrow> x = CHR ''.'' \<and> at_sep ds))"
  proof (cases cs)
    case Nil
    then show ?thesis by simp
  next
    case (Cons x ds)
    with cs have "CHR ''/'' \<notin> set ds" by simp
    then have "at_sep ds = (ds = [])" by (rule at_sep_no_sep)
    with assms e Cons show ?thesis by (auto simp: ordinary_def)
  qed
  have "root_depth d (c # cs) = root_depth (d + 1) (dropWhile (\<lambda>x. x \<noteq> CHR ''/'') cs)"
    using nsep n1 n2 by (rule root_depth_elem)
  also have "\<dots> = d + 1" using cs by (simp add: dropWhile_no_sep)
  finally show ?thesis using e by simp
qed

lemma root_depth_joinsep:
  "\<forall>e\<in>set es. ordinary e \<Longrightarrow> root_depth d (joinsep es) = d + length es"
proof (induction es arbitrary: d)
  case Nil
  show ?case by simp
next
  case (Cons e es)
  then have e: "ordinary e" and es: "\<forall>x\<in>set es. ordinary x" by simp_all
  show ?case
  proof (cases "es = []")
    case True
    then show ?thesis by (simp add: root_depth_ordinary [OF e])
  next
    case False
    then have "joinsep (e # es) = e @ CHR ''/'' # joinsep es" by (simp add: joinsep_Cons)
    then have "root_depth d (joinsep (e # es)) = root_depth (root_depth d e) (joinsep es)"
      by (simp only: root_depth_append)
    also have "\<dots> = root_depth (d + 1) (joinsep es)" by (simp only: root_depth_ordinary [OF e])
    also have "\<dots> = d + 1 + length es" by (rule Cons.IH [OF es])
    finally show ?thesis by simp
  qed
qed

lemma backtrack_to_root:
  assumes "CHR ''/'' \<notin> set e" and "j < length e"
  shows "backtrack (CHR ''/'' # e) 1 (Suc j) = 1"
  using assms(2)
proof (induction j)
  case 0
  show ?case by (simp add: backtrack.simps [of _ _ "Suc 0"])
next
  case (Suc j)
  then have "e ! Suc j \<in> set e" by simp
  with assms(1) have ne: "e ! Suc j \<noteq> CHR ''/''" by metis
  then have "backtrack (CHR ''/'' # e) 1 (Suc (Suc j)) = backtrack (CHR ''/'' # e) 1 (Suc j)"
    by (subst backtrack.simps) simp
  with Suc show ?case by simp
qed

lemma clean_loop_dotdot_root:
  "at_sep ds \<Longrightarrow> \<not> length out > dd \<Longrightarrow>
   clean_loop True (CHR ''.'' # CHR ''.'' # ds) out dd = clean_loop True ds out dd"
  by (simp add: at_sep_simps clean_loop.simps)

lemma clean_loop_elem_rooted:
  "c \<noteq> CHR ''/'' \<Longrightarrow> \<not> (c = CHR ''.'' \<and> at_sep cs)
   \<Longrightarrow> \<not> (c = CHR ''.'' \<and> (case cs of [] \<Rightarrow> False | d # ds \<Rightarrow> d = CHR ''.'' \<and> at_sep ds))
   \<Longrightarrow> clean_loop True (c # cs) out dd
       = clean_loop True (dropWhile (\<lambda>x. x \<noteq> CHR ''/'') cs)
           ((if length out \<noteq> 1 then out @ ''/'' else out) @ c # takeWhile (\<lambda>x. x \<noteq> CHR ''/'') cs) dd"
  by (cases "c = CHR ''.''") (simp_all add: clean_loop.simps)

lemma joinsep_ordinary_Nil:
  assumes "\<forall>e\<in>set es. ordinary e"
  shows "(joinsep es = []) = (es = [])"
proof -
  from assms have "\<forall>x\<in>set es. x \<noteq> []" by (auto simp: ordinary_def)
  then show ?thesis by (rule joinsep_eq_Nil)
qed

lemma rooted_backtrack:
  assumes es0: "\<forall>e\<in>set es0. ordinary e" and e: "ordinary e"
  shows "take (backtrack (CHR ''/'' # joinsep (es0 @ [e])) 1 (length (CHR ''/'' # joinsep (es0 @ [e])) - 1))
           (CHR ''/'' # joinsep (es0 @ [e]))
         = CHR ''/'' # joinsep es0"
proof (cases "es0 = []")
  case True
  from e have nosep: "CHR ''/'' \<notin> set e" and ne: "e \<noteq> []" by (simp_all add: ordinary_def)
  from ne obtain j where j: "length e = Suc j" by (cases e) auto
  then have "j < length e" by simp
  with nosep have "backtrack (CHR ''/'' # e) 1 (Suc j) = 1" by (rule backtrack_to_root)
  with True j show ?thesis by simp
next
  case False
  let ?pre = "CHR ''/'' # joinsep es0"
  from False have out: "CHR ''/'' # joinsep (es0 @ [e]) = ?pre @ CHR ''/'' # e"
    by (simp add: joinsep_snoc)
  from e have nosep: "CHR ''/'' \<notin> set e" by (simp add: ordinary_def)
  have le: "1 \<le> length ?pre" by simp
  have "backtrack (?pre @ CHR ''/'' # e) 1 (length ?pre + length e) = length ?pre"
    using nosep le by (rule backtrack_to_sep) simp
  then show ?thesis by (simp add: out)
qed

lemma clean_loop_rooted:
  assumes "\<forall>e\<in>set es. ordinary e"
  shows "\<exists>es'. clean_loop True p (CHR ''/'' # joinsep es) 1 = CHR ''/'' # joinsep es'
               \<and> (\<forall>e\<in>set es'. ordinary e) \<and> length es' = root_depth (length es) p"
  using assms
proof (induction p arbitrary: es rule: net_depth.induct)
  case 1
  then show ?case by auto
next
  case (2 c cs)
  note ord = \<open>\<forall>e\<in>set es. ordinary e\<close>
  show ?case
  proof (cases "c = CHR ''/''")
    case True
    with 2(1) [OF True ord] show ?thesis
      by (simp add: clean_loop_sep root_depth_sep)
  next
    case nsep: False
    show ?thesis
    proof (cases "c = CHR ''.'' \<and> at_sep cs")
      case True
      with 2(2) [OF nsep True ord] show ?thesis
        by (simp add: clean_loop_dot root_depth_dot)
    next
      case ndot: False
      show ?thesis
      proof (cases "c = CHR ''.'' \<and> (case cs of [] \<Rightarrow> False | d # ds \<Rightarrow> d = CHR ''.'' \<and> at_sep ds)")
        case True
        then obtain ds where c: "c = CHR ''.''" and cs: "cs = CHR ''.'' # ds" and ds: "at_sep ds"
          by (auto split: list.splits)
        have rd: "root_depth (length es) (c # cs) = root_depth (length es - 1) ds"
          using ds by (simp add: c cs root_depth_dotdot)
        show ?thesis
        proof (cases es rule: rev_cases)
          case Nil
          have "\<not> length (CHR ''/'' # joinsep es) > 1" using Nil by simp
          with ds have "clean_loop True (c # cs) (CHR ''/'' # joinsep es) 1
                        = clean_loop True ds (CHR ''/'' # joinsep es) 1"
            unfolding c cs by (rule clean_loop_dotdot_root)
          moreover have "\<exists>es'. clean_loop True (tl cs) (CHR ''/'' # joinsep es) 1 = CHR ''/'' # joinsep es'
               \<and> (\<forall>e\<in>set es'. ordinary e) \<and> length es' = root_depth (length es) (tl cs)"
            by (rule 2(3) [OF nsep ndot True ord])
          ultimately show ?thesis using rd cs Nil by simp
        next
          case (snoc es0 e)
          with ord have es0: "\<forall>e\<in>set es0. ordinary e" and e: "ordinary e" by simp_all
          from e have "e \<noteq> []" by (simp add: ordinary_def)
          then have "joinsep (es0 @ [e]) \<noteq> []" by (simp add: joinsep_snoc)
          then have "length (CHR ''/'' # joinsep es) > 1" using snoc by simp
          with ds have "clean_loop True (c # cs) (CHR ''/'' # joinsep es) 1
                = clean_loop True ds
                    (take (backtrack (CHR ''/'' # joinsep es) 1 (length (CHR ''/'' # joinsep es) - 1))
                       (CHR ''/'' # joinsep es)) 1"
            unfolding c cs by (rule clean_loop_dotdot_back)
          also have "\<dots> = clean_loop True ds (CHR ''/'' # joinsep es0) 1"
            unfolding snoc by (simp only: rooted_backtrack [OF es0 e])
          finally have step: "clean_loop True (c # cs) (CHR ''/'' # joinsep es) 1
                = clean_loop True ds (CHR ''/'' # joinsep es0) 1" .
          have "\<exists>es'. clean_loop True (tl cs) (CHR ''/'' # joinsep es0) 1 = CHR ''/'' # joinsep es'
               \<and> (\<forall>e\<in>set es'. ordinary e) \<and> length es' = root_depth (length es0) (tl cs)"
            by (rule 2(3) [OF nsep ndot True es0])
          with step rd cs snoc show ?thesis by simp
        qed
      next
        case nn: False
        let ?e = "c # takeWhile (\<lambda>x. x \<noteq> CHR ''/'') cs"
        have e: "ordinary ?e" using nsep ndot nn by (rule elem_ordinary)
        with ord have ord': "\<forall>x\<in>set (es @ [?e]). ordinary x" by simp
        have dw: "dropWhile (\<lambda>x. x \<noteq> CHR ''/'') (c # cs) = dropWhile (\<lambda>x. x \<noteq> CHR ''/'') cs"
          using nsep by simp
        have ih: "\<exists>es'. clean_loop True (dropWhile (\<lambda>x. x \<noteq> CHR ''/'') cs) (CHR ''/'' # joinsep (es @ [?e])) 1
                    = CHR ''/'' # joinsep es'
               \<and> (\<forall>e\<in>set es'. ordinary e)
               \<and> length es' = root_depth (length (es @ [?e])) (dropWhile (\<lambda>x. x \<noteq> CHR ''/'') cs)"
          using 2(4) [OF nsep ndot nn ord'] by (simp only: dw)
        have out: "(if length (CHR ''/'' # joinsep es) \<noteq> 1 then (CHR ''/'' # joinsep es) @ ''/''
                    else CHR ''/'' # joinsep es) @ ?e
                   = CHR ''/'' # joinsep (es @ [?e])"
          using joinsep_ordinary_Nil [OF ord] by (simp add: joinsep_snoc)
        have "clean_loop True (c # cs) (CHR ''/'' # joinsep es) 1
              = clean_loop True (dropWhile (\<lambda>x. x \<noteq> CHR ''/'') cs)
                  ((if length (CHR ''/'' # joinsep es) \<noteq> 1 then (CHR ''/'' # joinsep es) @ ''/''
                    else CHR ''/'' # joinsep es) @ ?e) 1"
          using nsep ndot nn by (rule clean_loop_elem_rooted)
        then have step: "clean_loop True (c # cs) (CHR ''/'' # joinsep es) 1
              = clean_loop True (dropWhile (\<lambda>x. x \<noteq> CHR ''/'') cs) (CHR ''/'' # joinsep (es @ [?e])) 1"
          by (simp only: out)
        have "root_depth (length es) (c # cs)
              = root_depth (length es + 1) (dropWhile (\<lambda>x. x \<noteq> CHR ''/'') cs)"
          using nsep ndot nn by (rule root_depth_elem)
        with step ih show ?thesis by simp
      qed
    qed
  qed
qed

lemma path_Clean_rooted:
  "\<exists>es. path_Clean (CHR ''/'' # p) = CHR ''/'' # joinsep es
        \<and> (\<forall>e\<in>set es. ordinary e) \<and> length es = root_depth 0 p"
proof -
  have "\<exists>es'. clean_loop True p (CHR ''/'' # joinsep []) 1 = CHR ''/'' # joinsep es'
               \<and> (\<forall>e\<in>set es'. ordinary e) \<and> length es' = root_depth (length ([] :: string list)) p"
    by (rule clean_loop_rooted) simp
  then obtain es where es: "clean_loop True p ''/'' 1 = CHR ''/'' # joinsep es"
      "\<forall>e\<in>set es. ordinary e" "length es = root_depth 0 p"
    by auto
  then have "path_Clean (CHR ''/'' # p) = CHR ''/'' # joinsep es"
    by (simp add: path_Clean_def)
  with es show ?thesis by blast
qed

lemma KeyPrefix_differs_rooted:
  assumes "Prefix az \<noteq> []" and "hd (Prefix az) = CHR ''/''" and "path_Clean (Prefix az) \<noteq> ''/''"
  shows "KeyPrefix az key \<noteq> key"
proof
  assume eq: "KeyPrefix az key = key"
  from assms(1,2) obtain p where p: "Prefix az = CHR ''/'' # p" by (cases "Prefix az") auto
  obtain ps where ps: "path_Clean (CHR ''/'' # p) = CHR ''/'' # joinsep ps"
      "\<forall>e\<in>set ps. ordinary e" "length ps = root_depth 0 p"
    using path_Clean_rooted [of p] by blast
  from assms(3) p ps(1) have "joinsep ps \<noteq> []" by simp
  then have "ps \<noteq> []" by auto
  then have "0 < length ps" by simp
  then have pos: "0 < root_depth 0 p" by (simp only: ps(3))
  have kp: "KeyPrefix az key = path_Clean (CHR ''/'' # (p @ CHR ''/'' # key))"
    using p by (simp add: KeyPrefix_def path_Join_relative)
  obtain es where es: "path_Clean (CHR ''/'' # (p @ CHR ''/'' # key)) = CHR ''/'' # joinsep es"
      "\<forall>e\<in>set es. ordinary e" "length es = root_depth 0 (p @ CHR ''/'' # key)"
    using path_Clean_rooted [of "p @ CHR ''/'' # key"] by blast
  from eq kp es(1) have key: "key = CHR ''/'' # joinsep es" by simp
  have "root_depth 0 (p @ CHR ''/'' # key) = root_depth (root_depth 0 p) key"
    by (rule root_depth_append)
  also have "\<dots> = root_depth (root_depth 0 p) (joinsep es)"
    by (simp only: key root_depth_sep)
  also have "\<dots> = root_depth 0 p + length es"
    by (rule root_depth_joinsep [OF es(2)])
  finally have "length es = root_depth 0 p + length es" using es(3) by simp
  with pos show False by simp
qed

lemma KeyPrefix_rooted_examples:
  "KeyPrefix (backend ''/certs'') ''a'' = ''/certs/a''"
  "KeyPrefix (backend ''/certs'') ''/a'' = ''/certs/a''"
  "KeyPrefix (backend ''/certs'') ''../a'' = ''/a''"
  "KeyPrefix (backend ''/certs'') [] = ''/certs''"
  "KeyPrefix (backend ''/'') ''/a'' = ''/a''"
  "KeyPrefix (backend ''/a/..'') ''/b'' = ''/b''"
  by (simp_all add: KeyPrefix_def backend_def path_eval clean_loop.simps)


section \<open>Prefixes that leave a key unchanged\<close>

text \<open>
  The two conditions above are exact. A prefix that starts with \<open>/\<close> and is cleaned to
  \<open>/\<close> leaves the key \<open>/\<close> unchanged. After a relative prefix of net depth zero the
  buffer holds as many ordinary elements as \<open>..\<close> elements, and a key made of that many
  \<open>..\<close> elements (at least one) removes the first and comes out unchanged. So, for a
  prefix that is not empty, \<open>KeyPrefix\<close> changes every key if and only if the prefix
  satisfies the condition for its kind.
\<close>

lemma takeWhile_append_sep:
  "takeWhile (\<lambda>x. x \<noteq> CHR ''/'') (a @ CHR ''/'' # b) = takeWhile (\<lambda>x. x \<noteq> CHR ''/'') a"
  by (induction a) simp_all

lemma not_dot_append:
  "\<not> (c = CHR ''.'' \<and> at_sep cs) \<Longrightarrow> \<not> (c = CHR ''.'' \<and> at_sep (cs @ CHR ''/'' # b))"
  by (simp add: at_sep_append)

lemma not_dotdot_append:
  assumes "\<not> (c = CHR ''.'' \<and> (case cs of [] \<Rightarrow> False | d # ds \<Rightarrow> d = CHR ''.'' \<and> at_sep ds))"
    and "\<not> (c = CHR ''.'' \<and> at_sep cs)"
  shows "\<not> (c = CHR ''.'' \<and> (case cs @ CHR ''/'' # b of [] \<Rightarrow> False | d # ds \<Rightarrow> d = CHR ''.'' \<and> at_sep ds))"
  using assms by (cases cs) (auto simp: at_sep_append at_sep_simps)

lemma clean_loop_rooted_trailing:
  "clean_loop True (a @ CHR ''/'' # []) out dd = clean_loop True a out dd"
proof (induction a arbitrary: out rule: net_depth.induct)
  case 1
  show ?case by (simp add: clean_loop_sep)
next
  case (2 c cs)
  show ?case
  proof (cases "c = CHR ''/''")
    case True
    with 2(1) [OF True] show ?thesis by (simp add: clean_loop_sep)
  next
    case nsep: False
    show ?thesis
    proof (cases "c = CHR ''.'' \<and> at_sep cs")
      case True
      then have "at_sep (cs @ CHR ''/'' # [])" by (simp add: at_sep_append)
      with True 2(2) [OF nsep True] show ?thesis by (simp add: clean_loop_dot)
    next
      case ndot: False
      show ?thesis
      proof (cases "c = CHR ''.'' \<and> (case cs of [] \<Rightarrow> False | d # ds \<Rightarrow> d = CHR ''.'' \<and> at_sep ds)")
        case True
        then obtain ds where c: "c = CHR ''.''" and cs: "cs = CHR ''.'' # ds" and ds: "at_sep ds"
          by (auto split: list.splits)
        from ds have ds': "at_sep (ds @ CHR ''/'' # [])" by (simp add: at_sep_append)
        have ih: "\<And>out. clean_loop True (ds @ CHR ''/'' # []) out dd = clean_loop True ds out dd"
          using 2(3) [OF nsep ndot True] cs by simp
        show ?thesis
        proof (cases "length out > dd")
          case True
          then show ?thesis
            using ds ds' ih by (simp add: c cs clean_loop_dotdot_back)
        next
          case False
          then show ?thesis
            using ds ds' ih by (simp add: c cs clean_loop_dotdot_root)
        qed
      next
        case nn: False
        have dw: "dropWhile (\<lambda>x. x \<noteq> CHR ''/'') (c # cs) = dropWhile (\<lambda>x. x \<noteq> CHR ''/'') cs"
          using nsep by simp
        have ih: "\<And>out. clean_loop True (dropWhile (\<lambda>x. x \<noteq> CHR ''/'') cs @ CHR ''/'' # []) out dd
                    = clean_loop True (dropWhile (\<lambda>x. x \<noteq> CHR ''/'') cs) out dd"
          using 2(4) [OF nsep ndot nn] by (simp only: dw)
        have "clean_loop True (c # (cs @ CHR ''/'' # [])) out dd
              = clean_loop True (dropWhile (\<lambda>x. x \<noteq> CHR ''/'') (cs @ CHR ''/'' # []))
                  ((if length out \<noteq> 1 then out @ ''/'' else out)
                     @ c # takeWhile (\<lambda>x. x \<noteq> CHR ''/'') (cs @ CHR ''/'' # [])) dd"
          using nsep not_dot_append [OF ndot] not_dotdot_append [OF nn ndot]
          by (rule clean_loop_elem_rooted)
        also have "\<dots> = clean_loop True (dropWhile (\<lambda>x. x \<noteq> CHR ''/'') cs @ CHR ''/'' # [])
                  ((if length out \<noteq> 1 then out @ ''/'' else out)
                     @ c # takeWhile (\<lambda>x. x \<noteq> CHR ''/'') cs) dd"
          by (simp only: dropWhile_append_sep takeWhile_append_sep)
        also have "\<dots> = clean_loop True (dropWhile (\<lambda>x. x \<noteq> CHR ''/'') cs)
                  ((if length out \<noteq> 1 then out @ ''/'' else out)
                     @ c # takeWhile (\<lambda>x. x \<noteq> CHR ''/'') cs) dd"
          by (rule ih)
        also have "\<dots> = clean_loop True (c # cs) out dd"
          using nsep ndot nn by (rule clean_loop_elem_rooted [symmetric])
        finally show ?thesis by simp
      qed
    qed
  qed
qed

lemma KeyPrefix_rooted_fixed:
  assumes "Prefix az \<noteq> []" and "hd (Prefix az) = CHR ''/''" and "path_Clean (Prefix az) = ''/''"
  shows "KeyPrefix az ''/'' = ''/''"
proof -
  from assms(1,2) obtain p where p: "Prefix az = CHR ''/'' # p" by (cases "Prefix az") auto
  have "clean_loop True (p @ ''//'') ''/'' 1 = clean_loop True ((p @ ''/'') @ CHR ''/'' # []) ''/'' 1"
    by simp
  also have "\<dots> = clean_loop True (p @ CHR ''/'' # []) ''/'' 1"
    by (rule clean_loop_rooted_trailing)
  also have "\<dots> = clean_loop True p ''/'' 1"
    by (rule clean_loop_rooted_trailing)
  finally have "path_Clean (CHR ''/'' # p @ ''//'') = path_Clean (CHR ''/'' # p)"
    by (simp add: path_Clean_def)
  with assms(3) p show ?thesis
    by (simp add: KeyPrefix_def path_Join_relative)
qed

lemma relative_compose:
  assumes "\<forall>e\<in>set es. ordinary e"
  shows "\<exists>n' es'. (\<forall>e\<in>set es'. ordinary e)
           \<and> int (length es') - int n' = int (length es) - int n + net_depth p
           \<and> (\<forall>k. clean_loop False (p @ CHR ''/'' # k) (joinsep (replicate n ''..'' @ es))
                      (length (joinsep (replicate n ''..'')))
                 = clean_loop False k (joinsep (replicate n' ''..'' @ es'))
                      (length (joinsep (replicate n' ''..''))))"
  using assms
proof (induction p arbitrary: n es rule: net_depth.induct)
  case 1
  then show ?case
    by (intro exI [of _ n] exI [of _ es]) (simp add: clean_loop_sep)
next
  case (2 c cs)
  note ord = \<open>\<forall>e\<in>set es. ordinary e\<close>
  show ?case
  proof (cases "c = CHR ''/''")
    case True
    with 2(1) [OF True ord, of n] show ?thesis
      by (simp add: clean_loop_sep net_depth_sep)
  next
    case nsep: False
    show ?thesis
    proof (cases "c = CHR ''.'' \<and> at_sep cs")
      case True
      then have "\<And>k. at_sep (cs @ CHR ''/'' # k)" by (simp add: at_sep_append)
      with True 2(2) [OF nsep True ord, of n] show ?thesis
        by (simp add: clean_loop_dot net_depth_dot)
    next
      case ndot: False
      show ?thesis
      proof (cases "c = CHR ''.'' \<and> (case cs of [] \<Rightarrow> False | d # ds \<Rightarrow> d = CHR ''.'' \<and> at_sep ds)")
        case True
        then obtain ds where c: "c = CHR ''.''" and cs: "cs = CHR ''.'' # ds" and ds: "at_sep ds"
          by (auto split: list.splits)
        from ds have ds': "\<And>k. at_sep (ds @ CHR ''/'' # k)" by (simp add: at_sep_append)
        have nd: "net_depth (c # cs) = net_depth ds - 1"
          using c cs ds by (simp add: net_depth_dotdot)
        show ?thesis
        proof (cases es rule: rev_cases)
          case Nil
          obtain n' es' where ih: "\<forall>e\<in>set es'. ordinary e"
              "int (length es') - int n' = int (length ([] :: string list)) - int (Suc n) + net_depth (tl cs)"
              "\<And>k. clean_loop False (tl cs @ CHR ''/'' # k) (joinsep (replicate (Suc n) ''..'' @ []))
                      (length (joinsep (replicate (Suc n) ''..'')))
                 = clean_loop False k (joinsep (replicate n' ''..'' @ es'))
                      (length (joinsep (replicate n' ''..'')))"
            using 2(3) [OF nsep ndot True, of "[]" "Suc n"] by auto
          have notgt: "\<not> length (joinsep (replicate n ''..'')) > length (joinsep (replicate n ''..''))"
            by simp
          have step: "clean_loop False ((c # cs) @ CHR ''/'' # k) (joinsep (replicate n ''..'' @ es))
                      (length (joinsep (replicate n ''..'')))
                = clean_loop False (ds @ CHR ''/'' # k) (joinsep (replicate (Suc n) ''..''))
                      (length (joinsep (replicate (Suc n) ''..'')))" for k
          proof -
            have "clean_loop False (CHR ''.'' # CHR ''.'' # (ds @ CHR ''/'' # k)) (joinsep (replicate n ''..''))
                      (length (joinsep (replicate n ''..'')))
                = clean_loop False (ds @ CHR ''/'' # k)
                    ((if length (joinsep (replicate n ''..'')) > 0 then joinsep (replicate n ''..'') @ ''/''
                      else joinsep (replicate n ''..'')) @ ''..'')
                    (length ((if length (joinsep (replicate n ''..'')) > 0 then joinsep (replicate n ''..'') @ ''/''
                      else joinsep (replicate n ''..'')) @ ''..''))"
              using ds' notgt by (rule clean_loop_dotdot_push)
            then show ?thesis
              unfolding c cs Nil by (simp only: render_push append_Nil2 append_Cons)
          qed
          show ?thesis
            using ih step nd cs Nil
            by (intro exI [of _ n'] exI [of _ es']) simp
        next
          case (snoc es0 e)
          with ord have es0: "\<forall>e\<in>set es0. ordinary e" and e: "ordinary e" by simp_all
          obtain n' es' where ih: "\<forall>e\<in>set es'. ordinary e"
              "int (length es') - int n' = int (length es0) - int n + net_depth (tl cs)"
              "\<And>k. clean_loop False (tl cs @ CHR ''/'' # k) (joinsep (replicate n ''..'' @ es0))
                      (length (joinsep (replicate n ''..'')))
                 = clean_loop False k (joinsep (replicate n' ''..'' @ es'))
                      (length (joinsep (replicate n' ''..'')))"
            using 2(3) [OF nsep ndot True es0, of n] by auto
          have gt: "length (joinsep (replicate n ''..'' @ es)) > length (joinsep (replicate n ''..''))"
            using render_longer [OF ord, of n] snoc by simp
          have step: "clean_loop False ((c # cs) @ CHR ''/'' # k) (joinsep (replicate n ''..'' @ es))
                      (length (joinsep (replicate n ''..'')))
                = clean_loop False (ds @ CHR ''/'' # k) (joinsep (replicate n ''..'' @ es0))
                      (length (joinsep (replicate n ''..'')))" for k
          proof -
            have "clean_loop False (CHR ''.'' # CHR ''.'' # (ds @ CHR ''/'' # k)) (joinsep (replicate n ''..'' @ es))
                      (length (joinsep (replicate n ''..'')))
                = clean_loop False (ds @ CHR ''/'' # k)
                    (take (backtrack (joinsep (replicate n ''..'' @ es)) (length (joinsep (replicate n ''..'')))
                       (length (joinsep (replicate n ''..'' @ es)) - 1)) (joinsep (replicate n ''..'' @ es)))
                    (length (joinsep (replicate n ''..'')))"
              using ds' gt by (rule clean_loop_dotdot_back)
            also have "\<dots> = clean_loop False (ds @ CHR ''/'' # k) (joinsep (replicate n ''..'' @ es0))
                    (length (joinsep (replicate n ''..'')))"
              unfolding snoc by (simp only: render_backtrack [OF es0 e])
            finally show ?thesis unfolding c cs by simp
          qed
          show ?thesis
            using ih step nd cs snoc
            by (intro exI [of _ n'] exI [of _ es']) simp
        qed
      next
        case nn: False
        let ?e = "c # takeWhile (\<lambda>x. x \<noteq> CHR ''/'') cs"
        have e: "ordinary ?e" using nsep ndot nn by (rule elem_ordinary)
        with ord have ord': "\<forall>x\<in>set (es @ [?e]). ordinary x" by simp
        have dw: "dropWhile (\<lambda>x. x \<noteq> CHR ''/'') (c # cs) = dropWhile (\<lambda>x. x \<noteq> CHR ''/'') cs"
          using nsep by simp
        obtain n' es' where ih: "\<forall>e\<in>set es'. ordinary e"
            "int (length es') - int n' = int (length (es @ [?e])) - int n
                 + net_depth (dropWhile (\<lambda>x. x \<noteq> CHR ''/'') cs)"
            "\<And>k. clean_loop False (dropWhile (\<lambda>x. x \<noteq> CHR ''/'') cs @ CHR ''/'' # k)
                      (joinsep (replicate n ''..'' @ es @ [?e])) (length (joinsep (replicate n ''..'')))
                 = clean_loop False k (joinsep (replicate n' ''..'' @ es'))
                      (length (joinsep (replicate n' ''..'')))"
          using 2(4) [OF nsep ndot nn ord', of n] unfolding dw by auto
        have out: "(if length (joinsep (replicate n ''..'' @ es)) \<noteq> 0
                    then joinsep (replicate n ''..'' @ es) @ ''/''
                    else joinsep (replicate n ''..'' @ es)) @ ?e
                   = joinsep (replicate n ''..'' @ es @ [?e])"
          by (simp add: render_snoc [OF ord])
        have step: "clean_loop False ((c # cs) @ CHR ''/'' # k) (joinsep (replicate n ''..'' @ es))
                      (length (joinsep (replicate n ''..'')))
              = clean_loop False (dropWhile (\<lambda>x. x \<noteq> CHR ''/'') cs @ CHR ''/'' # k)
                  (joinsep (replicate n ''..'' @ es @ [?e])) (length (joinsep (replicate n ''..'')))" for k
        proof -
          have "clean_loop False (c # (cs @ CHR ''/'' # k)) (joinsep (replicate n ''..'' @ es))
                      (length (joinsep (replicate n ''..'')))
              = clean_loop False (dropWhile (\<lambda>x. x \<noteq> CHR ''/'') (cs @ CHR ''/'' # k))
                  ((if length (joinsep (replicate n ''..'' @ es)) \<noteq> 0
                    then joinsep (replicate n ''..'' @ es) @ ''/''
                    else joinsep (replicate n ''..'' @ es))
                     @ c # takeWhile (\<lambda>x. x \<noteq> CHR ''/'') (cs @ CHR ''/'' # k))
                  (length (joinsep (replicate n ''..'')))"
            using nsep not_dot_append [OF ndot] not_dotdot_append [OF nn ndot]
            by (rule clean_loop_elem)
          then show ?thesis
            by (simp only: dropWhile_append_sep takeWhile_append_sep out append_Cons)
        qed
        have nd: "net_depth (c # cs) = net_depth (dropWhile (\<lambda>x. x \<noteq> CHR ''/'') cs) + 1"
          using nsep ndot nn by (rule net_depth_elem)
        show ?thesis
          using ih step nd
          by (intro exI [of _ n'] exI [of _ es']) simp
      qed
    qed
  qed
qed


lemma joinsep_dotdots_Suc:
  "joinsep (replicate (Suc m) ''..'')
   = (if m = 0 then ''..'' else CHR ''.'' # CHR ''.'' # CHR ''/'' # joinsep (replicate m ''..''))"
  by (cases m) (simp_all add: joinsep_Cons)

lemma relative_dotdot_step:
  assumes ord: "\<forall>e\<in>set es. ordinary e" and sep: "at_sep rest"
  shows "clean_loop False (CHR ''.'' # CHR ''.'' # rest) (joinsep (replicate n ''..'' @ es))
            (length (joinsep (replicate n ''..'')))
         = (if es = [] then
              clean_loop False rest (joinsep (replicate (Suc n) ''..'' @ []))
                (length (joinsep (replicate (Suc n) ''..'')))
            else
              clean_loop False rest (joinsep (replicate n ''..'' @ butlast es))
                (length (joinsep (replicate n ''..''))))"
proof (cases es rule: rev_cases)
  case Nil
  have notgt: "\<not> length (joinsep (replicate n ''..'')) > length (joinsep (replicate n ''..''))"
    by simp
  have "clean_loop False (CHR ''.'' # CHR ''.'' # rest) (joinsep (replicate n ''..''))
            (length (joinsep (replicate n ''..'')))
        = clean_loop False rest
            ((if length (joinsep (replicate n ''..'')) > 0 then joinsep (replicate n ''..'') @ ''/''
              else joinsep (replicate n ''..'')) @ ''..'')
            (length ((if length (joinsep (replicate n ''..'')) > 0 then joinsep (replicate n ''..'') @ ''/''
              else joinsep (replicate n ''..'')) @ ''..''))"
    using sep notgt by (rule clean_loop_dotdot_push)
  then have "clean_loop False (CHR ''.'' # CHR ''.'' # rest) (joinsep (replicate n ''..''))
            (length (joinsep (replicate n ''..'')))
        = clean_loop False rest (joinsep (replicate (Suc n) ''..''))
            (length (joinsep (replicate (Suc n) ''..'')))"
    by (simp only: render_push)
  then show ?thesis
    unfolding Nil by simp
next
  case (snoc es0 e)
  with ord have es0: "\<forall>e\<in>set es0. ordinary e" and e: "ordinary e" by simp_all
  have gt: "length (joinsep (replicate n ''..'' @ es)) > length (joinsep (replicate n ''..''))"
    using render_longer [OF ord, of n] snoc by simp
  have "clean_loop False (CHR ''.'' # CHR ''.'' # rest) (joinsep (replicate n ''..'' @ es))
            (length (joinsep (replicate n ''..'')))
        = clean_loop False rest
            (take (backtrack (joinsep (replicate n ''..'' @ es)) (length (joinsep (replicate n ''..'')))
               (length (joinsep (replicate n ''..'' @ es)) - 1)) (joinsep (replicate n ''..'' @ es)))
            (length (joinsep (replicate n ''..'')))"
    using sep gt by (rule clean_loop_dotdot_back)
  also have "\<dots> = clean_loop False rest (joinsep (replicate n ''..'' @ es0))
            (length (joinsep (replicate n ''..'')))"
    unfolding snoc by (simp only: render_backtrack [OF es0 e])
  finally show ?thesis using snoc by simp
qed

lemma relative_dotdots:
  assumes "\<forall>e\<in>set es. ordinary e" and "length es \<le> Suc m"
  shows "clean_loop False (joinsep (replicate (Suc m) ''..'')) (joinsep (replicate n ''..'' @ es))
            (length (joinsep (replicate n ''..'')))
         = joinsep (replicate (n + Suc m - length es) ''..'')"
  using assms
proof (induction m arbitrary: n es)
  case 0
  note ord = \<open>\<forall>e\<in>set es. ordinary e\<close>
  have "clean_loop False (CHR ''.'' # CHR ''.'' # []) (joinsep (replicate n ''..'' @ es))
            (length (joinsep (replicate n ''..'')))
         = (if es = [] then
              clean_loop False [] (joinsep (replicate (Suc n) ''..'' @ []))
                (length (joinsep (replicate (Suc n) ''..'')))
            else
              clean_loop False [] (joinsep (replicate n ''..'' @ butlast es))
                (length (joinsep (replicate n ''..''))))"
    using ord by (rule relative_dotdot_step) (simp add: at_sep_simps)
  moreover have "es \<noteq> [] \<Longrightarrow> butlast es = [] \<and> length es = 1"
    using 0(2) by (cases es) auto
  ultimately show ?case
    by (cases "es = []") (simp_all add: joinsep_dotdots_Suc)
next
  case (Suc m)
  note ord = \<open>\<forall>e\<in>set es. ordinary e\<close>
  let ?rest = "CHR ''/'' # joinsep (replicate (Suc m) ''..'')"
  have inp: "joinsep (replicate (Suc (Suc m)) ''..'') = CHR ''.'' # CHR ''.'' # ?rest"
    by (simp only: joinsep_dotdots_Suc [of "Suc m"]) simp
  have step: "clean_loop False (CHR ''.'' # CHR ''.'' # ?rest) (joinsep (replicate n ''..'' @ es))
            (length (joinsep (replicate n ''..'')))
         = (if es = [] then
              clean_loop False ?rest (joinsep (replicate (Suc n) ''..'' @ []))
                (length (joinsep (replicate (Suc n) ''..'')))
            else
              clean_loop False ?rest (joinsep (replicate n ''..'' @ butlast es))
                (length (joinsep (replicate n ''..''))))"
    using ord by (rule relative_dotdot_step) (simp add: at_sep_simps)
  show ?case
  proof (cases "es = []")
    case True
    have "clean_loop False (joinsep (replicate (Suc m) ''..'')) (joinsep (replicate (Suc n) ''..'' @ []))
            (length (joinsep (replicate (Suc n) ''..'')))
          = joinsep (replicate (Suc n + Suc m - length ([] :: string list)) ''..'')"
      by (rule Suc.IH) simp_all
    with step True show ?thesis
      by (simp only: inp clean_loop_sep) simp
  next
    case False
    have ord': "\<forall>e\<in>set (butlast es). ordinary e"
      using ord by (auto dest: in_set_butlastD)
    have len: "length (butlast es) \<le> Suc m" using Suc.prems(2) by simp
    have "clean_loop False (joinsep (replicate (Suc m) ''..'')) (joinsep (replicate n ''..'' @ butlast es))
            (length (joinsep (replicate n ''..'')))
          = joinsep (replicate (n + Suc m - length (butlast es)) ''..'')"
      using ord' len by (rule Suc.IH)
    moreover have "n + Suc m - length (butlast es) = n + Suc (Suc m) - length es"
      using False Suc.prems(2) by (cases es rule: rev_cases) auto
    ultimately show ?thesis using step False
      by (simp only: inp clean_loop_sep) simp
  qed
qed

lemma KeyPrefix_relative_fixed:
  assumes "Prefix az \<noteq> []" and "hd (Prefix az) \<noteq> CHR ''/''" and "net_depth (Prefix az) = 0"
  shows "\<exists>key. KeyPrefix az key = key"
proof -
  obtain n' es' where ord: "\<forall>e\<in>set es'. ordinary e"
      and depth: "int (length es') - int n' = int (length ([] :: string list)) - int 0 + net_depth (Prefix az)"
      and comp: "\<And>k. clean_loop False (Prefix az @ CHR ''/'' # k) (joinsep (replicate 0 ''..'' @ []))
                      (length (joinsep (replicate 0 ''..'')))
                 = clean_loop False k (joinsep (replicate n' ''..'' @ es'))
                      (length (joinsep (replicate n' ''..'')))"
    using relative_compose [of "[]" 0 "Prefix az"] by auto
  from depth assms(3) have len: "length es' = n'" by simp
  let ?m = "n' - 1"
  let ?key = "joinsep (replicate (Suc ?m) ''..'')"
  have le: "length es' \<le> Suc ?m" using len by simp
  have "clean_loop False ?key (joinsep (replicate n' ''..'' @ es')) (length (joinsep (replicate n' ''..'')))
        = joinsep (replicate (n' + Suc ?m - length es') ''..'')"
    using ord le by (rule relative_dotdots)
  also have "\<dots> = ?key" using len by simp
  finally have "clean_loop False (Prefix az @ CHR ''/'' # ?key) [] 0 = ?key"
    using comp [of ?key] by simp
  moreover have "?key \<noteq> []" by (simp add: joinsep_Cons)
  moreover have "Prefix az @ CHR ''/'' # ?key \<noteq> []" "hd (Prefix az @ CHR ''/'' # ?key) \<noteq> CHR ''/''"
    using assms(1,2) by simp_all
  ultimately have "path_Clean (Prefix az @ CHR ''/'' # ?key) = ?key"
    by (simp add: path_Clean_def)
  then have "KeyPrefix az ?key = ?key"
    using assms(1) by (simp add: KeyPrefix_def path_Join_relative)
  then show ?thesis by blast
qed

lemma KeyPrefix_differs_iff:
  assumes "Prefix az \<noteq> []"
  shows "(\<forall>key. KeyPrefix az key \<noteq> key)
         = (if hd (Prefix az) = CHR ''/'' then path_Clean (Prefix az) \<noteq> ''/''
            else net_depth (Prefix az) \<noteq> 0)"
proof (cases "hd (Prefix az) = CHR ''/''")
  case True
  show ?thesis
  proof (cases "path_Clean (Prefix az) = ''/''")
    case c: True
    from assms True c have "KeyPrefix az ''/'' = ''/''" by (rule KeyPrefix_rooted_fixed)
    then have "\<not> (\<forall>key. KeyPrefix az key \<noteq> key)" by blast
    with True c show ?thesis by simp
  next
    case c: False
    from assms True c have "\<forall>key. KeyPrefix az key \<noteq> key"
      by (simp add: KeyPrefix_differs_rooted)
    with True c show ?thesis by simp
  qed
next
  case False
  show ?thesis
  proof (cases "net_depth (Prefix az) = 0")
    case c: True
    from assms False c have "\<exists>key. KeyPrefix az key = key" by (rule KeyPrefix_relative_fixed)
    then have "\<not> (\<forall>key. KeyPrefix az key \<noteq> key)" by blast
    with False c show ?thesis by simp
  next
    case c: False
    from assms False c have "\<forall>key. KeyPrefix az key \<noteq> key"
      by (simp add: KeyPrefix_differs)
    with False c show ?thesis by simp
  qed
qed


section \<open>The key reported by Stat\<close>

text \<open>
  C10 (counterexample). Backend with the non-empty prefix \<open>.\<close>, the blob \<open>a\<close> exists:
  \<open>Stat\<close> of the key \<open>a\<close> succeeds and the \<open>Key\<close> it reports is \<open>a\<close>, the logical key
  itself, because \<open>path.Join\<close> cleans \<open>./a\<close> to \<open>a\<close>.
\<close>

theorem Stat_Key_equals_key_with_dot_prefix:
  "Prefix (backend ''.'') \<noteq> []
   \<and> Stat (mem_azblob t1) (backend ''.'') ''a'' (one_blob ''a'')
       = Return (\<lparr>Key = ''a'', Modified = t1, Size = 3, IsTerminal = False\<rparr>, None)"
  by (simp add: Stat_def mem_eval KeyPrefix_dot_a strings_HasSuffix_def backend_sel)

text \<open>
  C10 (amended). For every key on which \<open>Stat\<close> succeeds (the request for the properties
  succeeds and \<open>Stat\<close> returns), the \<open>Key\<close> of the returned \<open>KeyInfo\<close> is the resolved
  path \<open>KeyPrefix key\<close>, not the key that was passed in; the two differ whenever the
  configured prefix is not empty and does not clean away: a prefix that starts with \<open>/\<close>
  is not cleaned to \<open>/\<close> by \<open>path.Clean\<close>, and a prefix that does not start with \<open>/\<close>
  has a net depth other than zero (the number of its ordinary elements differs from the
  number of its \<open>..\<close> elements). This covers \<open>certs\<close>, \<open>/certs\<close> and
  \<open>example.com/certs/\<close>. By \<open>KeyPrefix_differs_iff\<close> every other prefix that is not
  empty leaves some key unchanged, as \<open>.\<close> does in the counterexample.
\<close>

theorem Stat_Key_is_resolved_path:
  assumes "GetProperties sdk (Client az) (Container az) (KeyPrefix az key) s = Inr props"
    and "Stat sdk az key s = Return (info, err)"
  shows "Key info = KeyPrefix az key
         \<and> (Prefix az \<noteq> []
              \<and> (if hd (Prefix az) = CHR ''/'' then path_Clean (Prefix az) \<noteq> ''/''
                   else net_depth (Prefix az) \<noteq> 0)
              \<longrightarrow> Key info \<noteq> key)"
proof -
  from assms have k: "Key info = KeyPrefix az key"
    by (auto simp: Stat_def split: option.splits)
  show ?thesis
  proof (intro conjI impI)
    show "Key info = KeyPrefix az key" by (rule k)
  next
    assume "Prefix az \<noteq> []
              \<and> (if hd (Prefix az) = CHR ''/'' then path_Clean (Prefix az) \<noteq> ''/''
                   else net_depth (Prefix az) \<noteq> 0)"
    then have "KeyPrefix az key \<noteq> key"
      by (cases "hd (Prefix az) = CHR ''/''") (simp_all add: KeyPrefix_differs KeyPrefix_differs_rooted)
    with k show "Key info \<noteq> key" by simp
  qed
qed

theorem Stat_Key_is_resolved_path_witness:
  "GetProperties (mem_azblob t1) (Client (backend ''certs'')) (Container (backend ''certs''))
      (KeyPrefix (backend ''certs'') ''a'') (one_blob ''certs/a'')
     = Inr \<lparr>LastModified = Some t1, ContentLength = Some 3\<rparr>
   \<and> Stat (mem_azblob t1) (backend ''certs'') ''a'' (one_blob ''certs/a'')
     = Return (\<lparr>Key = ''certs/a'', Modified = t1, Size = 3, IsTerminal = False\<rparr>, None)
   \<and> Prefix (backend ''certs'') \<noteq> []
   \<and> hd (Prefix (backend ''certs'')) \<noteq> CHR ''/''
   \<and> net_depth (Prefix (backend ''certs'')) \<noteq> 0
   \<and> Key \<lparr>Key = ''certs/a'', Modified = t1, Size = 3, IsTerminal = False\<rparr>
       = KeyPrefix (backend ''certs'') ''a''
   \<and> Key \<lparr>Key = ''certs/a'', Modified = t1, Size = 3, IsTerminal = False\<rparr> \<noteq> ''a''
   \<and> GetProperties (mem_azblob t1) (Client (backend ''/certs'')) (Container (backend ''/certs''))
      (KeyPrefix (backend ''/certs'') ''/a'') (one_blob ''/certs/a'')
     = Inr \<lparr>LastModified = Some t1, ContentLength = Some 3\<rparr>
   \<and> Stat (mem_azblob t1) (backend ''/certs'') ''/a'' (one_blob ''/certs/a'')
     = Return (\<lparr>Key = ''/certs/a'', Modified = t1, Size = 3, IsTerminal = False\<rparr>, None)
   \<and> Prefix (backend ''/certs'') \<noteq> []
   \<and> hd (Prefix (backend ''/certs'')) = CHR ''/''
   \<and> path_Clean (Prefix (backend ''/certs'')) \<noteq> ''/''
   \<and> Key \<lparr>Key = ''/certs/a'', Modified = t1, Size = 3, IsTerminal = False\<rparr>
       = KeyPrefix (backend ''/certs'') ''/a''
   \<and> Key \<lparr>Key = ''/certs/a'', Modified = t1, Size = 3, IsTerminal = False\<rparr> \<noteq> ''/a''"
proof -
  let ?info = "\<lparr>Key = ''certs/a'', Modified = t1, Size = 3, IsTerminal = False\<rparr>"
  let ?rinfo = "\<lparr>Key = ''/certs/a'', Modified = t1, Size = 3, IsTerminal = False\<rparr>"
  have g: "GetProperties (mem_azblob t1) (Client (backend ''certs'')) (Container (backend ''certs''))
      (KeyPrefix (backend ''certs'') ''a'') (one_blob ''certs/a'')
     = Inr \<lparr>LastModified = Some t1, ContentLength = Some 3\<rparr>"
    by (simp add: mem_eval KeyPrefix_certs_a backend_sel)
  have st: "Stat (mem_azblob t1) (backend ''certs'') ''a'' (one_blob ''certs/a'') = Return (?info, None)"
    by (simp add: Stat_def mem_eval KeyPrefix_certs_a strings_HasSuffix_def backend_sel)
  have p: "Prefix (backend ''certs'') \<noteq> []" "hd (Prefix (backend ''certs'')) \<noteq> CHR ''/''"
      "net_depth (Prefix (backend ''certs'')) \<noteq> 0"
    by (simp_all add: backend_sel net_depth_examples)
  have rg: "GetProperties (mem_azblob t1) (Client (backend ''/certs'')) (Container (backend ''/certs''))
      (KeyPrefix (backend ''/certs'') ''/a'') (one_blob ''/certs/a'')
     = Inr \<lparr>LastModified = Some t1, ContentLength = Some 3\<rparr>"
    by (simp add: mem_eval KeyPrefix_rooted_examples backend_sel)
  have rst: "Stat (mem_azblob t1) (backend ''/certs'') ''/a'' (one_blob ''/certs/a'') = Return (?rinfo, None)"
    by (simp add: Stat_def mem_eval KeyPrefix_rooted_examples strings_HasSuffix_def backend_sel)
  have rp: "Prefix (backend ''/certs'') \<noteq> []" "hd (Prefix (backend ''/certs'')) = CHR ''/''"
      "path_Clean (Prefix (backend ''/certs'')) \<noteq> ''/''"
    by (simp_all add: backend_sel path_eval clean_loop.simps)
  have c: "Prefix (backend ''certs'') \<noteq> []
           \<and> (if hd (Prefix (backend ''certs'')) = CHR ''/''
                then path_Clean (Prefix (backend ''certs'')) \<noteq> ''/''
                else net_depth (Prefix (backend ''certs'')) \<noteq> 0)"
    using p by simp
  have rc: "Prefix (backend ''/certs'') \<noteq> []
           \<and> (if hd (Prefix (backend ''/certs'')) = CHR ''/''
                then path_Clean (Prefix (backend ''/certs'')) \<noteq> ''/''
                else net_depth (Prefix (backend ''/certs'')) \<noteq> 0)"
    using rp by simp
  from Stat_Key_is_resolved_path [OF g st] c
  have r1: "Key ?info = KeyPrefix (backend ''certs'') ''a'' \<and> Key ?info \<noteq> ''a''"
    by blast
  from Stat_Key_is_resolved_path [OF rg rst] rc
  have r2: "Key ?rinfo = KeyPrefix (backend ''/certs'') ''/a'' \<and> Key ?rinfo \<noteq> ''/a''"
    by blast
  from g st p r1 rg rst rp r2 show ?thesis by blast
qed

end
